theory Spec2Isabelle
  imports Complex_Main "HOL-Library.AList"
begin

section \<open>Costs\<close>

text \<open>
  A cost is a Python float: an edge weight read by \<^verbatim>\<open>float(weight)\<close>, the integer
  \<^verbatim>\<open>0\<close> of a node to itself, or \<^verbatim>\<open>np.inf\<close>. The model takes the finite
  costs as exact reals and adds the one value \<open>Inf\<close>; rounding, NaN and negative
  infinity are not represented. Addition and comparison are those of the floats on
  these values: anything plus infinity is infinity, and nothing is above infinity.
\<close>

datatype cost = Fin real | Inf

instantiation cost :: "{zero, plus, linorder}"
begin

definition zero_cost :: cost where
  "zero_cost = Fin 0"

fun plus_cost :: "cost \<Rightarrow> cost \<Rightarrow> cost" where
  "plus_cost (Fin a) (Fin b) = Fin (a + b)"
| "plus_cost (Fin a) Inf = Inf"
| "plus_cost Inf c = Inf"

fun less_eq_cost :: "cost \<Rightarrow> cost \<Rightarrow> bool" where
  "less_eq_cost (Fin a) (Fin b) = (a \<le> b)"
| "less_eq_cost (Fin a) Inf = True"
| "less_eq_cost Inf (Fin b) = False"
| "less_eq_cost Inf Inf = True"

fun less_cost :: "cost \<Rightarrow> cost \<Rightarrow> bool" where
  "less_cost (Fin a) (Fin b) = (a < b)"
| "less_cost (Fin a) Inf = True"
| "less_cost Inf c = False"

instance
proof
  fix x y z :: cost
  show "(x < y) = (x \<le> y \<and> \<not> y \<le> x)"
    by (cases x; cases y) auto
  show "x \<le> x"
    by (cases x) auto
  show "x \<le> y \<Longrightarrow> y \<le> z \<Longrightarrow> x \<le> z"
    by (cases x; cases y; cases z) auto
  show "x \<le> y \<Longrightarrow> y \<le> x \<Longrightarrow> x = y"
    by (cases x; cases y) auto
  show "x \<le> y \<or> y \<le> x"
    by (cases x; cases y) auto
qed

end

section \<open>The graph: nodes, edges, tables and mailboxes\<close>

text \<open>
  Node names are the strings of the topology file. An \<open>Edge\<close> object holds its two
  end nodes and a weight; the code only ever reads \<^verbatim>\<open>edge.destination.name\<close> and
  \<^verbatim>\<open>edge.weight\<close>, so the model keeps the names of the two ends. A routing table
  row is the three-element list \<^verbatim>\<open>[source, destination, cost]\<close>. Of a \<open>Node\<close>
  the model keeps the name, the edge list, the table \<open>initTable\<close> and the mailbox
  \<open>updatedInit\<close> (one received table per message); port, host name, shutdown flag
  and thread belong to the socket transport, which the model represents by the list
  of messages in flight of the section on advertisement.
\<close>

type_synonym node_id = string

record edge =
  source :: node_id
  destination :: node_id
  weight :: cost

type_synonym row = "node_id \<times> node_id \<times> cost"

type_synonym table = "row list"

record node =
  name :: node_id
  edges :: "edge list"
  initTable :: table
  updatedInit :: "table list"

text \<open>
  The graph is a Python dict from names to nodes. Its key order matters (tables are
  built and nodes are updated in that order), so it is an association list; a dict has
  each key once, which is the predicate \<open>dict_keys_ok\<close>.
\<close>

type_synonym graph = "(node_id \<times> node) list"

definition keys :: "graph \<Rightarrow> node_id list" where
  "keys g = map fst g"

definition dict_keys_ok :: "graph \<Rightarrow> bool" where
  "dict_keys_ok g = distinct (keys g)"

datatype error = KeyError | ValueError | EOFError

text \<open>\<^verbatim>\<open>Node.addEdge\<close>: append an edge from this node to \<open>dest\<close>.\<close>

definition addEdge :: "node_id \<Rightarrow> cost \<Rightarrow> node \<Rightarrow> node" where
  "addEdge dest c nd =
     nd\<lparr>edges := edges nd @ [\<lparr>source = name nd, destination = dest, weight = c\<rparr>]\<rparr>"

text \<open>\<^verbatim>\<open>Node(name, port)\<close>: a new node has no edges, an empty table and an empty mailbox.\<close>

definition new_node :: "node_id \<Rightarrow> node" where
  "new_node n = \<lparr>name = n, edges = [], initTable = [], updatedInit = []\<rparr>"

text \<open>
  The body of the loop of \<open>parse_input\<close> for one line \<^verbatim>\<open>SRC DEST WEIGHT\<close>: create the
  two nodes when they are new, then add the edge in both directions.
\<close>

definition add_line :: "node_id \<times> node_id \<times> cost \<Rightarrow> graph \<Rightarrow> graph" where
  "add_line l g =
     (case l of (source_name, dest_name, w) \<Rightarrow>
        let g1 = (if source_name \<in> set (keys g) then g else g @ [(source_name, new_node source_name)]);
            g2 = (if dest_name \<in> set (keys g1) then g1 else g1 @ [(dest_name, new_node dest_name)]);
            g3 = AList.map_entry source_name (addEdge dest_name w) g2
        in AList.map_entry dest_name (addEdge source_name w) g3)"

definition build_graph :: "(node_id \<times> node_id \<times> cost) list \<Rightarrow> graph" where
  "build_graph ls = fold add_line ls []"

section \<open>Initialisation of the tables\<close>

definition calculate_cost :: "graph \<Rightarrow> node_id \<Rightarrow> node_id \<Rightarrow> cost" where
  "calculate_cost g source_node_name dest_node_name =
     (if source_node_name = dest_node_name then 0
      else case map_of g source_node_name of
             None \<Rightarrow> Inf
           | Some nd \<Rightarrow>
               (case find (\<lambda>e. destination e = dest_node_name) (edges nd) of
                  Some e \<Rightarrow> weight e
                | None \<Rightarrow> Inf))"

text \<open>
  The inner loop of \<open>initDVtable\<close>: one appended row per destination. The outer
  loop runs over the keys; its test \<^verbatim>\<open>index < len(keys)\<close> always holds.
\<close>

definition append_row :: "node_id \<Rightarrow> node_id \<Rightarrow> graph \<Rightarrow> graph" where
  "append_row source_node dest_node g =
     AList.map_entry source_node
       (\<lambda>nd. nd\<lparr>initTable := initTable nd @
                  [(source_node, dest_node, calculate_cost g source_node dest_node)]\<rparr>) g"

definition initDVtable :: "graph \<Rightarrow> graph" where
  "initDVtable g =
     (let ks = keys g
      in fold (\<lambda>source_node g'. fold (append_row source_node) ks g') ks g)"

section \<open>Advertisement\<close>

text \<open>
  \<open>sendDVtoNeighbor\<close> hands the sender's whole table to \<open>clientSide\<close> for every
  other node to which \<open>calculate_cost\<close> gives a cost that is neither infinity nor
  zero. Both names come from the key list, so the two dict lookups of the source
  cannot fail. \<open>clientSide\<close> connects, sends and closes; it does not wait for the
  receiver, and nothing in the graph changes. From then on the message is in flight:
  the model keeps the messages in flight, each with its receiver, in the order of the
  sends. The connect and the send themselves are taken to succeed, since
  \<open>startServers\<close> has waited for every listener.
\<close>

definition transmits :: "graph \<Rightarrow> node_id \<Rightarrow> node_id \<Rightarrow> bool" where
  "transmits g source_node dest_node =
     (source_node \<noteq> dest_node \<and>
      (let c = calculate_cost g source_node dest_node in c \<noteq> Inf \<and> c \<noteq> 0))"

definition table_of :: "graph \<Rightarrow> node_id \<Rightarrow> table" where
  "table_of g n = (case map_of g n of Some nd \<Rightarrow> initTable nd | None \<Rightarrow> [])"

definition mailbox_of :: "graph \<Rightarrow> node_id \<Rightarrow> table list" where
  "mailbox_of g n = (case map_of g n of Some nd \<Rightarrow> updatedInit nd | None \<Rightarrow> [])"

type_synonym message = "node_id \<times> table"

type_synonym network = "message list"

definition clientSide :: "node_id \<Rightarrow> table \<Rightarrow> network \<Rightarrow> network" where
  "clientSide dest_node message net = net @ [(dest_node, message)]"

definition send_to :: "graph \<Rightarrow> node_id \<Rightarrow> node_id \<Rightarrow> network \<Rightarrow> network" where
  "send_to g source_node dest_node net =
     (if transmits g source_node dest_node
      then clientSide dest_node (table_of g source_node) net
      else net)"

definition sendDVtoNeighbor :: "graph \<Rightarrow> network \<Rightarrow> network" where
  "sendDVtoNeighbor g net =
     (let ks = keys g
      in fold (\<lambda>source_node net'. fold (send_to g source_node) ks net') ks net)"

text \<open>
  The listener thread of a node (\<open>serverSide\<close>) takes its connections one after the
  other, at a time of its own: a payload it can decode is appended to the mailbox,
  and one it cannot decode (cut off at 1024 bytes, or otherwise malformed) is printed
  and dropped. Nothing in the code orders the listener against the main thread, so
  what the listener has done by the time the main thread next reads the mailbox is a
  parameter of the model: a list of fates for the first messages waiting for the
  node, in their order; the messages after them stay in flight.
\<close>

datatype fate = Arrives | Lost

definition receive :: "node_id \<Rightarrow> table \<Rightarrow> graph \<Rightarrow> graph" where
  "receive n data g =
     AList.map_entry n (\<lambda>nd. nd\<lparr>updatedInit := updatedInit nd @ [data]\<rparr>) g"

fun take_message :: "node_id \<Rightarrow> network \<Rightarrow> (table \<times> network) option" where
  "take_message n [] = None"
| "take_message n (m # net) =
     (if fst m = n then Some (snd m, net)
      else map_option (\<lambda>(data, net'). (data, m # net')) (take_message n net))"

fun serverSide :: "node_id \<Rightarrow> fate list \<Rightarrow> graph \<times> network \<Rightarrow> graph \<times> network" where
  "serverSide n [] st = st"
| "serverSide n (f # fs) st =
     (case st of (g, net) \<Rightarrow>
        (case take_message n net of
           None \<Rightarrow> (g, net)
         | Some (data, net') \<Rightarrow>
             serverSide n fs (case f of Arrives \<Rightarrow> receive n data g | Lost \<Rightarrow> g, net')))"

text \<open>The list of (sender, receiver) pairs of one call, in the order of the sends.\<close>

definition send_pairs :: "graph \<Rightarrow> (node_id \<times> node_id) list" where
  "send_pairs g =
     concat (map (\<lambda>s. map (\<lambda>d. (s, d)) (filter (transmits g s) (keys g))) (keys g))"

section \<open>The update (relaxation)\<close>

text \<open>
  \<open>own_dv_dict\<close> is a Python dict from destination to cost: assigning to a present
  key keeps the key's place, a new key goes to the end. That is \<open>AList.update\<close>.
\<close>

type_synonym dv_dict = "(node_id \<times> cost) list"

definition dict_of_table :: "table \<Rightarrow> dv_dict" where
  "dict_of_table t = fold (\<lambda>r d. case r of (_, dst, c) \<Rightarrow> AList.update dst c d) t []"

text \<open>
  One advertised row. The line that prints \<^verbatim>\<open>own_dv_dict[dst]\<close> before the
  assignment raises \<open>KeyError\<close> when the destination is not yet a key.
\<close>

definition relax_row :: "node_id \<Rightarrow> row \<Rightarrow> dv_dict \<times> bool \<Rightarrow> error + dv_dict \<times> bool" where
  "relax_row node_id r st =
     (case r of (src, dst, received_cost) \<Rightarrow>
       (case st of (own_dv_dict, changed) \<Rightarrow>
          if src \<noteq> node_id then
            (case map_of own_dv_dict src of
               None \<Rightarrow> Inr (own_dv_dict, changed)
             | Some own_src \<Rightarrow>
                 let src_to_dst_cost = own_src + received_cost
                 in (case map_of own_dv_dict dst of
                       None \<Rightarrow> Inl KeyError
                     | Some own_dst \<Rightarrow>
                         if src_to_dst_cost < own_dst
                         then Inr (AList.update dst src_to_dst_cost own_dv_dict, True)
                         else Inr (own_dv_dict, changed)))
          else Inr (own_dv_dict, changed)))"

fun relax_rows :: "node_id \<Rightarrow> row list \<Rightarrow> dv_dict \<times> bool \<Rightarrow> error + dv_dict \<times> bool" where
  "relax_rows node_id [] st = Inr st"
| "relax_rows node_id (r # rs) st =
     (case relax_row node_id r st of
        Inl e \<Rightarrow> Inl e
      | Inr st' \<Rightarrow> relax_rows node_id rs st')"

fun relax_tables :: "node_id \<Rightarrow> table list \<Rightarrow> dv_dict \<times> bool \<Rightarrow> error + dv_dict \<times> bool" where
  "relax_tables node_id [] st = Inr st"
| "relax_tables node_id (received_table # ts) st =
     (case relax_rows node_id received_table st of
        Inl e \<Rightarrow> Inl e
      | Inr st' \<Rightarrow> relax_tables node_id ts st')"

definition table_of_dict :: "node_id \<Rightarrow> dv_dict \<Rightarrow> table" where
  "table_of_dict node_id d = map (\<lambda>(dst, c). (node_id, dst, c)) d"

text \<open>
  \<open>update_node\<close> is \<open>updateDV\<close> on the node object itself: from the table and the
  mailbox to the rebuilt table and the flag. \<open>updateDV\<close> looks the node up in the
  graph, stores the rebuilt table there and returns it with the flag.
\<close>

definition update_node :: "node_id \<Rightarrow> table \<Rightarrow> table list \<Rightarrow> error + table \<times> bool" where
  "update_node node_id own_dv_table received_tables =
     (case relax_tables node_id received_tables (dict_of_table own_dv_table, False) of
        Inl e \<Rightarrow> Inl e
      | Inr (d, changed) \<Rightarrow> Inr (table_of_dict node_id d, changed))"

definition updateDV :: "graph \<Rightarrow> node_id \<Rightarrow> error + graph \<times> table \<times> bool" where
  "updateDV g node_id =
     (case map_of g node_id of
        None \<Rightarrow> Inl KeyError
      | Some nd \<Rightarrow>
          (case update_node node_id (initTable nd) (updatedInit nd) of
             Inl e \<Rightarrow> Inl e
           | Inr (t, changed) \<Rightarrow>
               Inr (AList.map_entry node_id (\<lambda>nd. nd\<lparr>initTable := t\<rparr>) g, t, changed)))"

text \<open>How the code reads a table: the cost the dict built from it holds for \<open>d\<close>.\<close>

definition cost_in :: "table \<Rightarrow> node_id \<Rightarrow> cost option" where
  "cost_in t d = map_of (dict_of_table t) d"

section \<open>The convergence loops\<close>

text \<open>
  One cycle of either loop: send all tables, then update every node in key order;
  \<open>stable\<close> (here \<open>stable_flag\<close>) starts as \<open>True\<close> and becomes \<open>False\<close> at the
  first node that reports a change. A node's mailbox is read only by its own update,
  so the model lets the node's listener act just before that update, as the schedule
  of the cycle says for the node; what arrives later is seen by the update of the
  next cycle. The calls to the display window are not modelled.
\<close>

type_synonym schedule = "node_id \<Rightarrow> fate list"

fun update_all ::
  "schedule \<Rightarrow> node_id list \<Rightarrow> (graph \<times> network) \<times> bool \<Rightarrow>
   error + (graph \<times> network) \<times> bool" where
  "update_all sched [] st = Inr st"
| "update_all sched (node # ns) st =
     (case st of (gn, stable_flag) \<Rightarrow>
        (case serverSide node (sched node) gn of (g, net) \<Rightarrow>
           (case updateDV g node of
              Inl e \<Rightarrow> Inl e
            | Inr (g', updated_table, changed) \<Rightarrow>
                update_all sched ns ((g', net), if changed then False else stable_flag))))"

definition cycle :: "schedule \<Rightarrow> graph \<times> network \<Rightarrow> error + (graph \<times> network) \<times> bool" where
  "cycle sched st =
     (case st of (g, net) \<Rightarrow> update_all sched (keys g) ((g, sendDVtoNeighbor g net), True))"

text \<open>
  What a run leaves behind: the graph, the messages still in flight, the counter
  \<open>cycles\<close>, the last value of \<open>stable\<close>, and whether the message about the
  maximum of cycles was printed. The schedule of a run gives the schedule of each
  cycle, counted from 0.
\<close>

record run =
  graph_after :: graph
  network_after :: network
  cycles_run :: nat
  stable_end :: bool
  max_reported :: bool

function NoBreaks_loop ::
  "(nat \<Rightarrow> schedule) \<Rightarrow> nat \<Rightarrow> nat \<Rightarrow> graph \<times> network \<Rightarrow> error + run" where
  "NoBreaks_loop sched max_cycles cycles st =
     (case cycle (sched cycles) st of
        Inl e \<Rightarrow> Inl e
      | Inr (st', stable_flag) \<Rightarrow>
          if stable_flag
          then Inr \<lparr>graph_after = fst st', network_after = snd st', cycles_run = cycles + 1,
                    stable_end = True, max_reported = False\<rparr>
          else if cycles + 1 \<ge> max_cycles
          then Inr \<lparr>graph_after = fst st', network_after = snd st', cycles_run = cycles + 1,
                    stable_end = False, max_reported = True\<rparr>
          else NoBreaks_loop sched max_cycles (cycles + 1) st')"
  by pat_completeness auto
termination
  by (relation "measure (\<lambda>(sched, max_cycles, cycles, st). max_cycles - cycles)") auto

definition DVAlgorithmNoBreaks :: "(nat \<Rightarrow> schedule) \<Rightarrow> graph \<times> network \<Rightarrow> error + run" where
  "DVAlgorithmNoBreaks sched st = NoBreaks_loop sched (length (fst st) * 50) 0 st"

text \<open>
  The stepped loop reads the console: \<open>stdin\<close> is the list of lines still to come,
  and \<^verbatim>\<open>input\<close> at its end raises \<open>EOFError\<close>. \<^verbatim>\<open>decision.upper() != 'Y'\<close> needs
  the upper case of the ASCII letters only. A run of the stepped loop ends by a
  return, by an exception, or by \<^verbatim>\<open>os._exit(1)\<close>, which ends the whole process; the
  model records the exit status with the graph and the counter at that moment.
\<close>

definition upper_char :: "char \<Rightarrow> char" where
  "upper_char c =
     (case map_of (zip ''abcdefghijklmnopqrstuvwxyz'' ''ABCDEFGHIJKLMNOPQRSTUVWXYZ'') c of
        Some u \<Rightarrow> u
      | None \<Rightarrow> c)"

definition upper :: "string \<Rightarrow> string" where
  "upper s = map upper_char s"

datatype halt = Raise error | OsExit int graph nat

function Breaks_loop ::
  "(nat \<Rightarrow> schedule) \<Rightarrow> nat \<Rightarrow> nat \<Rightarrow> string list \<Rightarrow> graph \<times> network \<Rightarrow> halt + run" where
  "Breaks_loop sched max_cycles cycles stdin st =
     (if cycles < max_cycles then
        (case cycle (sched cycles) st of
           Inl e \<Rightarrow> Inl (Raise e)
         | Inr (st', stable_flag) \<Rightarrow>
             if stable_flag
             then Inr \<lparr>graph_after = fst st', network_after = snd st', cycles_run = cycles + 1,
                       stable_end = True, max_reported = False\<rparr>
             else (case stdin of
                     [] \<Rightarrow> Inl (Raise EOFError)
                   | decision # rest \<Rightarrow>
                       if upper decision \<noteq> ''Y''
                       then (case rest of
                               [] \<Rightarrow> Inl (Raise EOFError)
                             | enter # _ \<Rightarrow> Inl (OsExit 1 (fst st') (cycles + 1)))
                       else if cycles + 1 \<ge> max_cycles
                       then Inr \<lparr>graph_after = fst st', network_after = snd st',
                                 cycles_run = cycles + 1,
                                 stable_end = False, max_reported = True\<rparr>
                       else Breaks_loop sched max_cycles (cycles + 1) rest st'))
      else Inr \<lparr>graph_after = fst st, network_after = snd st, cycles_run = cycles,
                stable_end = False, max_reported = False\<rparr>)"
  by pat_completeness auto
termination
  by (relation "measure (\<lambda>(sched, max_cycles, cycles, stdin, st). max_cycles - cycles)") auto

definition DVAlgorithmBreaks ::
  "(nat \<Rightarrow> schedule) \<Rightarrow> graph \<times> network \<Rightarrow> string list \<Rightarrow> halt + run" where
  "DVAlgorithmBreaks sched st stdin = Breaks_loop sched (length (fst st) * 50) 0 stdin st"

text \<open>
  The state after \<open>k\<close> cycles in a row, whatever their flags, when the counter of the
  first of them is \<open>c\<close>.
\<close>

fun cycles_from ::
  "(nat \<Rightarrow> schedule) \<Rightarrow> nat \<Rightarrow> nat \<Rightarrow> graph \<times> network \<Rightarrow> error + graph \<times> network" where
  "cycles_from sched c 0 st = Inr st"
| "cycles_from sched c (Suc k) st =
     (case cycle (sched c) st of
        Inl e \<Rightarrow> Inl e
      | Inr (st', stable_flag) \<Rightarrow> cycles_from sched (Suc c) k st')"

section \<open>Changing a link cost\<close>

text \<open>
  Each of the two loops of \<open>DVAlgoLinkChange\<close> overwrites the first row of a table
  with the given two names and stops; a table without such a row is left as it is.
  The variable \<open>found\<close> only decides what is printed. \<open>None\<close> as cost stands for an
  argument that \<^verbatim>\<open>float\<close> rejects: the \<open>ValueError\<close> comes before the graph is read.
\<close>

fun set_link :: "node_id \<Rightarrow> node_id \<Rightarrow> cost \<Rightarrow> table \<Rightarrow> table" where
  "set_link s d link_cost [] = []"
| "set_link s d link_cost (r # rows) =
     (case r of (src, dest, cst) \<Rightarrow>
        if src = s \<and> dest = d then (src, dest, link_cost) # rows
        else r # set_link s d link_cost rows)"

datatype status = Not_Exist | Returned_None

definition DVAlgoLinkChange ::
  "graph \<Rightarrow> node_id \<Rightarrow> node_id \<Rightarrow> cost option \<Rightarrow> error + graph \<times> status" where
  "DVAlgoLinkChange g sourceid destid link_cost =
     (case link_cost of
        None \<Rightarrow> Inl ValueError
      | Some c \<Rightarrow>
          if sourceid \<in> set (keys g) \<and> destid \<in> set (keys g) then
            (let g1 = AList.map_entry sourceid
                        (\<lambda>nd. nd\<lparr>initTable := set_link sourceid destid c (initTable nd)\<rparr>) g;
                 g2 = AList.map_entry destid
                        (\<lambda>nd. nd\<lparr>initTable := set_link destid sourceid c (initTable nd)\<rparr>) g1
             in Inr (g2, Returned_None))
          else Inr (g, Not_Exist))"

text \<open>The first row of a table for a pair of names, as the loops above find it.\<close>

definition entry :: "table \<Rightarrow> node_id \<Rightarrow> node_id \<Rightarrow> cost option" where
  "entry t s d = map_option (\<lambda>r. snd (snd r)) (find (\<lambda>r. fst r = s \<and> fst (snd r) = d) t)"

section \<open>Notions used in the statements\<close>

text \<open>The edge list of a node, if the name is a key of the graph.\<close>

definition edges_of :: "graph \<Rightarrow> node_id \<Rightarrow> edge list option" where
  "edges_of g n = map_option edges (map_of g n)"


text \<open>The tables one call of \<open>sendDVtoNeighbor\<close> sends to node n, in the order of the sends.\<close>

definition sent_to :: "graph \<Rightarrow> node_id \<Rightarrow> table list" where
  "sent_to g n = map (table_of g) (filter (\<lambda>s. transmits g s n) (keys g))"

text \<open>The tables in flight to node n, in the order of the sends.\<close>

definition queue_of :: "network \<Rightarrow> node_id \<Rightarrow> table list" where
  "queue_of net n = map snd (filter (\<lambda>m. fst m = n) net)"

text \<open>
  What a listener appends to its mailbox when the tables \<open>q\<close> wait for it and the
  fates of the connections it handles are \<open>fs\<close>.
\<close>

fun arrived :: "fate list \<Rightarrow> table list \<Rightarrow> table list" where
  "arrived [] q = []"
| "arrived (f # fs) [] = []"
| "arrived (f # fs) (t # q) = (case f of Arrives \<Rightarrow> t # arrived fs q | Lost \<Rightarrow> arrived fs q)"

text \<open>
  Every row of every node's table carries the node's own name as its source. The
  code writes no other rows: \<open>initDVtable\<close> and \<open>updateDV\<close> build them so, and
  \<open>DVAlgoLinkChange\<close> keeps the names of the row it overwrites.
\<close>

definition rows_named :: "graph \<Rightarrow> bool" where
  "rows_named g = list_all (\<lambda>k. list_all (\<lambda>r. fst r = k) (table_of g k)) (keys g)"

text \<open>A row that changes nothing when the node with dict \<open>d\<close> processes it.\<close>

definition inert :: "node_id \<Rightarrow> dv_dict \<Rightarrow> row \<Rightarrow> bool" where
  "inert n d r = (relax_row n r (d, False) = Inr (d, False))"

text \<open>
  In the cycle that starts in the state \<open>st\<close>, every advertisement in flight to a node
  or sent to it in that cycle is in the node's mailbox before the node updates: its
  listener handles at least as many connections as wait for it, and decodes each.
\<close>

definition timely :: "schedule \<Rightarrow> graph \<times> network \<Rightarrow> bool" where
  "timely sched st =
     (case st of (g, net) \<Rightarrow>
        list_all (\<lambda>n. list_all (\<lambda>f. f = Arrives) (sched n) \<and>
                      length (queue_of (sendDVtoNeighbor g net) n) \<le> length (sched n))
          (keys g))"

text \<open>
  The states the loops run on: each name is a key once, every node's table has a row
  for exactly the keys of the graph, and every table in a mailbox names only keys of
  the graph as destinations. \<open>initDVtable\<close> on a freshly built graph gives such a
  state, and sends and updates keep it.
\<close>

definition closed_graph :: "graph \<Rightarrow> bool" where
  "closed_graph g =
     (dict_keys_ok g \<and>
      list_all (\<lambda>n. set (map (\<lambda>r. fst (snd r)) (table_of g n)) = set (keys g) \<and>
                    list_all (\<lambda>t. list_all (\<lambda>r. fst (snd r) \<in> set (keys g)) t) (mailbox_of g n))
        (keys g))"

text \<open>
  A closed graph together with messages in flight whose tables name only keys of the
  graph as destinations. The loops start from a closed graph with nothing in flight.
\<close>

definition closed_state :: "graph \<times> network \<Rightarrow> bool" where
  "closed_state st =
     (case st of (g, net) \<Rightarrow>
        closed_graph g \<and>
        list_all (\<lambda>m. list_all (\<lambda>r. fst (snd r) \<in> set (keys g)) (snd m)) net)"

section \<open>The rules in the words of the specification\<close>

text \<open>
  The update rule in the words of the specification, on a mapping from destination
  to cost. \<open>spec_candidate\<close> is the cost a row makes the node adopt, if any: a row
  whose advertiser has no finite cost in the mapping is ignored; otherwise the
  candidate is the own cost of the advertiser plus the advertised cost, adopted when
  the destination is unknown or the candidate is strictly less than the known cost.
  \<open>spec_relax\<close> runs a rule over the rows in order and counts the adoptions.
  \<open>spec_candidate_other\<close> is the same rule with rows advertised under the node's
  own name ignored.
\<close>

definition spec_candidate :: "(node_id \<rightharpoonup> cost) \<Rightarrow> row \<Rightarrow> cost option" where
  "spec_candidate m r =
     (case r of (advertiserId, dest, advertisedCost) \<Rightarrow>
        (case m advertiserId of
           None \<Rightarrow> None
         | Some Inf \<Rightarrow> None
         | Some (Fin a) \<Rightarrow>
             (let candidate = Fin a + advertisedCost
              in case m dest of
                   None \<Rightarrow> Some candidate
                 | Some known \<Rightarrow> if candidate < known then Some candidate else None)))"

definition spec_candidate_other :: "node_id \<Rightarrow> (node_id \<rightharpoonup> cost) \<Rightarrow> row \<Rightarrow> cost option" where
  "spec_candidate_other n m r = (if fst r = n then None else spec_candidate m r)"

fun spec_relax ::
  "((node_id \<rightharpoonup> cost) \<Rightarrow> row \<Rightarrow> cost option) \<Rightarrow> row list \<Rightarrow>
   (node_id \<rightharpoonup> cost) \<times> nat \<Rightarrow> (node_id \<rightharpoonup> cost) \<times> nat" where
  "spec_relax rule [] st = st"
| "spec_relax rule (r # rs) st =
     (case st of (m, adopted) \<Rightarrow>
        (case rule m r of
           None \<Rightarrow> spec_relax rule rs (m, adopted)
         | Some candidate \<Rightarrow> spec_relax rule rs (m(fst (snd r) \<mapsto> candidate), Suc adopted)))"

text \<open>
  The initial cost in the words of the specification: 0 from a node to itself, the
  weight of the direct edge when the node has an edge to the destination (the first
  one in its edge list, should there be several), infinity otherwise.
\<close>

definition direct_edges :: "graph \<Rightarrow> node_id \<Rightarrow> node_id \<Rightarrow> edge list" where
  "direct_edges g n d =
     filter (\<lambda>e. destination e = d) (case map_of g n of Some nd \<Rightarrow> edges nd | None \<Rightarrow> [])"

definition spec_cost :: "graph \<Rightarrow> node_id \<Rightarrow> node_id \<Rightarrow> cost" where
  "spec_cost g n d =
     (if n = d then Fin 0
      else if direct_edges g n d = [] then Inf
      else weight (hd (direct_edges g n d)))"

section \<open>Example states\<close>

text \<open>
  The worked example of the specification: the three lines of its topology, the graph
  \<open>parse_input\<close> builds from them, and the graph after \<open>initDVtable\<close>.
\<close>

definition example_lines :: "(node_id \<times> node_id \<times> cost) list" where
  "example_lines = [(''1'', ''2'', Fin 3), (''2'', ''3'', Fin 1), (''1'', ''3'', Fin 10)]"

definition example_nodes :: graph where
  "example_nodes =
     [(''1'', \<lparr>name = ''1'',
              edges = [\<lparr>source = ''1'', destination = ''2'', weight = Fin 3\<rparr>,
                       \<lparr>source = ''1'', destination = ''3'', weight = Fin 10\<rparr>],
              initTable = [], updatedInit = []\<rparr>),
      (''2'', \<lparr>name = ''2'',
              edges = [\<lparr>source = ''2'', destination = ''1'', weight = Fin 3\<rparr>,
                       \<lparr>source = ''2'', destination = ''3'', weight = Fin 1\<rparr>],
              initTable = [], updatedInit = []\<rparr>),
      (''3'', \<lparr>name = ''3'',
              edges = [\<lparr>source = ''3'', destination = ''2'', weight = Fin 1\<rparr>,
                       \<lparr>source = ''3'', destination = ''1'', weight = Fin 10\<rparr>],
              initTable = [], updatedInit = []\<rparr>)]"

text \<open>A graph with the tables of its nodes replaced, in key order.\<close>

definition with_tables :: "graph \<Rightarrow> table list \<Rightarrow> graph" where
  "with_tables g ts = map (\<lambda>((k, nd), t). (k, nd\<lparr>initTable := t\<rparr>)) (zip g ts)"

definition example_graph :: graph where
  "example_graph = with_tables example_nodes
     [[(''1'', ''1'', Fin 0), (''1'', ''2'', Fin 3), (''1'', ''3'', Fin 10)],
      [(''2'', ''1'', Fin 3), (''2'', ''2'', Fin 0), (''2'', ''3'', Fin 1)],
      [(''3'', ''1'', Fin 10), (''3'', ''2'', Fin 1), (''3'', ''3'', Fin 0)]]"

text \<open>A state in which node 2 has lost its row for node 1.\<close>

definition one_way_graph :: graph where
  "one_way_graph = with_tables example_nodes
     [[(''1'', ''1'', Fin 0), (''1'', ''2'', Fin 3), (''1'', ''3'', Fin 10)],
      [(''2'', ''2'', Fin 0), (''2'', ''3'', Fin 1)],
      [(''3'', ''1'', Fin 10), (''3'', ''2'', Fin 1), (''3'', ''3'', Fin 0)]]"

text \<open>The example after the link between nodes 1 and 2 is set to 100.\<close>

definition relinked_graph :: graph where
  "relinked_graph = with_tables example_nodes
     [[(''1'', ''1'', Fin 0), (''1'', ''2'', Fin 100), (''1'', ''3'', Fin 10)],
      [(''2'', ''1'', Fin 100), (''2'', ''2'', Fin 0), (''2'', ''3'', Fin 1)],
      [(''3'', ''1'', Fin 10), (''3'', ''2'', Fin 1), (''3'', ''3'', Fin 0)]]"

text \<open>A graph with the mailboxes of its nodes replaced, in key order.\<close>

definition with_mail :: "graph \<Rightarrow> table list list \<Rightarrow> graph" where
  "with_mail g ms = map (\<lambda>((k, nd), m). (k, nd\<lparr>updatedInit := m\<rparr>)) (zip g ms)"

text \<open>
  The example when every advertisement of the first \<open>sendDVtoNeighbor\<close> has arrived.
\<close>

definition example_sent :: graph where
  "example_sent = with_mail example_graph
     [[[(''2'', ''1'', Fin 3), (''2'', ''2'', Fin 0), (''2'', ''3'', Fin 1)],
       [(''3'', ''1'', Fin 10), (''3'', ''2'', Fin 1), (''3'', ''3'', Fin 0)]],
      [[(''1'', ''1'', Fin 0), (''1'', ''2'', Fin 3), (''1'', ''3'', Fin 10)],
       [(''3'', ''1'', Fin 10), (''3'', ''2'', Fin 1), (''3'', ''3'', Fin 0)]],
      [[(''1'', ''1'', Fin 0), (''1'', ''2'', Fin 3), (''1'', ''3'', Fin 10)],
       [(''2'', ''1'', Fin 3), (''2'', ''2'', Fin 0), (''2'', ''3'', Fin 1)]]]"

text \<open>The example after the first send and the update of node 1.\<close>

definition example_sent_1 :: graph where
  "example_sent_1 = AList.map_entry ''1''
     (\<lambda>nd. nd\<lparr>initTable := [(''1'', ''1'', Fin 0), (''1'', ''2'', Fin 3), (''1'', ''3'', Fin 4)]\<rparr>)
     example_sent"

text \<open>A state of node 1 whose mailbox holds a row advertised under its own name.\<close>

definition echo_graph :: graph where
  "echo_graph = with_mail example_graph [[[(''1'', ''3'', Fin 4)]], [], []]"


text \<open>
  Schedules: no listener gets to act; every listener handles up to \<open>k\<close> connections
  and decodes each of them; the same schedule in every cycle of a run.
\<close>

definition idle :: schedule where
  "idle n = []"

definition delivered :: "nat \<Rightarrow> schedule" where
  "delivered k n = replicate k Arrives"

definition always :: "schedule \<Rightarrow> nat \<Rightarrow> schedule" where
  "always sched cycles = sched"

text \<open>The advertisements of the first \<open>sendDVtoNeighbor\<close> of the example, in flight.\<close>

definition example_net :: network where
  "example_net =
     [(''2'', [(''1'', ''1'', Fin 0), (''1'', ''2'', Fin 3), (''1'', ''3'', Fin 10)]),
      (''3'', [(''1'', ''1'', Fin 0), (''1'', ''2'', Fin 3), (''1'', ''3'', Fin 10)]),
      (''1'', [(''2'', ''1'', Fin 3), (''2'', ''2'', Fin 0), (''2'', ''3'', Fin 1)]),
      (''3'', [(''2'', ''1'', Fin 3), (''2'', ''2'', Fin 0), (''2'', ''3'', Fin 1)]),
      (''1'', [(''3'', ''1'', Fin 10), (''3'', ''2'', Fin 1), (''3'', ''3'', Fin 0)]),
      (''2'', [(''3'', ''1'', Fin 10), (''3'', ''2'', Fin 1), (''3'', ''3'', Fin 0)])]"

text \<open>The example after its first cycle, when every advertisement has arrived in time.\<close>

definition example_cycle1 :: graph where
  "example_cycle1 = with_tables example_sent
     [[(''1'', ''1'', Fin 0), (''1'', ''2'', Fin 3), (''1'', ''3'', Fin 4)],
      [(''2'', ''1'', Fin 3), (''2'', ''2'', Fin 0), (''2'', ''3'', Fin 1)],
      [(''3'', ''1'', Fin 4), (''3'', ''2'', Fin 1), (''3'', ''3'', Fin 0)]]"

text \<open>The advertisements sent from the example after its first cycle, in flight.\<close>

definition example_net2 :: network where
  "example_net2 =
     [(''2'', [(''1'', ''1'', Fin 0), (''1'', ''2'', Fin 3), (''1'', ''3'', Fin 4)]),
      (''3'', [(''1'', ''1'', Fin 0), (''1'', ''2'', Fin 3), (''1'', ''3'', Fin 4)]),
      (''1'', [(''2'', ''1'', Fin 3), (''2'', ''2'', Fin 0), (''2'', ''3'', Fin 1)]),
      (''3'', [(''2'', ''1'', Fin 3), (''2'', ''2'', Fin 0), (''2'', ''3'', Fin 1)]),
      (''1'', [(''3'', ''1'', Fin 4), (''3'', ''2'', Fin 1), (''3'', ''3'', Fin 0)]),
      (''2'', [(''3'', ''1'', Fin 4), (''3'', ''2'', Fin 1), (''3'', ''3'', Fin 0)])]"

text \<open>
  The example after its second cycle, which changes no table, when every
  advertisement of both cycles has arrived in time.
\<close>

definition example_cycle2 :: graph where
  "example_cycle2 = with_mail example_cycle1
     [[[(''2'', ''1'', Fin 3), (''2'', ''2'', Fin 0), (''2'', ''3'', Fin 1)],
       [(''3'', ''1'', Fin 10), (''3'', ''2'', Fin 1), (''3'', ''3'', Fin 0)],
       [(''2'', ''1'', Fin 3), (''2'', ''2'', Fin 0), (''2'', ''3'', Fin 1)],
       [(''3'', ''1'', Fin 4), (''3'', ''2'', Fin 1), (''3'', ''3'', Fin 0)]],
      [[(''1'', ''1'', Fin 0), (''1'', ''2'', Fin 3), (''1'', ''3'', Fin 10)],
       [(''3'', ''1'', Fin 10), (''3'', ''2'', Fin 1), (''3'', ''3'', Fin 0)],
       [(''1'', ''1'', Fin 0), (''1'', ''2'', Fin 3), (''1'', ''3'', Fin 4)],
       [(''3'', ''1'', Fin 4), (''3'', ''2'', Fin 1), (''3'', ''3'', Fin 0)]],
      [[(''1'', ''1'', Fin 0), (''1'', ''2'', Fin 3), (''1'', ''3'', Fin 10)],
       [(''2'', ''1'', Fin 3), (''2'', ''2'', Fin 0), (''2'', ''3'', Fin 1)],
       [(''1'', ''1'', Fin 0), (''1'', ''2'', Fin 3), (''1'', ''3'', Fin 4)],
       [(''2'', ''1'', Fin 3), (''2'', ''2'', Fin 0), (''2'', ''3'', Fin 1)]]]"

text \<open>
  A state of a single node whose mailbox holds a row that lowers the cost to node 2
  by 1 each time it is processed, so that no cycle is stable; and the same state
  after fifty cycles.
\<close>

definition drift_graph :: graph where
  "drift_graph = [(''1'', \<lparr>name = ''1'', edges = [],
      initTable = [(''1'', ''1'', Fin 0), (''1'', ''2'', Fin 0)],
      updatedInit = [[(''2'', ''2'', Fin (- 1))]]\<rparr>)]"

definition drift_end :: graph where
  "drift_end = [(''1'', \<lparr>name = ''1'', edges = [],
      initTable = [(''1'', ''1'', Fin 0), (''1'', ''2'', Fin (- 50))],
      updatedInit = [[(''2'', ''2'', Fin (- 1))]]\<rparr>)]"

section \<open>Properties\<close>

subsection \<open>The relaxation keeps the keys of the dict\<close>

lemma relax_row_keys:
  "relax_row n r (d, ch) = Inr (d', ch') \<Longrightarrow> map fst d' = map fst d"
  by (auto simp: relax_row_def Let_def AList.update_keys map_of_eq_None_iff[symmetric]
           split: prod.splits option.splits if_splits)

lemma relax_rows_keys:
  "relax_rows n rs (d, ch) = Inr (d', ch') \<Longrightarrow> map fst d' = map fst d"
proof (induction rs arbitrary: d ch)
  case Nil then show ?case by simp
next
  case (Cons r rs)
  then show ?case
    by (auto split: sum.splits dest: relax_row_keys)
qed

lemma relax_tables_keys:
  "relax_tables n ts (d, ch) = Inr (d', ch') \<Longrightarrow> map fst d' = map fst d"
proof (induction ts arbitrary: d ch)
  case Nil then show ?case by simp
next
  case (Cons t ts)
  then show ?case
    by (auto split: sum.splits dest: relax_rows_keys)
qed

lemma relax_row_le:
  "relax_row n r (d, ch) = Inr (d', ch') \<Longrightarrow> map_of d k = Some c \<Longrightarrow>
   \<exists>c'. map_of d' k = Some c' \<and> c' \<le> c"
  by (auto simp: relax_row_def Let_def AList.update_conv' split: prod.splits option.splits if_splits)

lemma relax_rows_le:
  "relax_rows n rs (d, ch) = Inr (d', ch') \<Longrightarrow> map_of d k = Some c \<Longrightarrow>
   \<exists>c'. map_of d' k = Some c' \<and> c' \<le> c"
proof (induction rs arbitrary: d ch c)
  case Nil then show ?case by simp
next
  case (Cons r rs)
  from Cons.prems obtain d1 ch1 where
    s1: "relax_row n r (d, ch) = Inr (d1, ch1)" and s2: "relax_rows n rs (d1, ch1) = Inr (d', ch')"
    by (auto split: sum.splits)
  from relax_row_le[OF s1 Cons.prems(2)] obtain c1 where "map_of d1 k = Some c1" "c1 \<le> c" by blast
  with Cons.IH[OF s2] show ?case by (meson order_trans)
qed

lemma relax_tables_le:
  "relax_tables n ts (d, ch) = Inr (d', ch') \<Longrightarrow> map_of d k = Some c \<Longrightarrow>
   \<exists>c'. map_of d' k = Some c' \<and> c' \<le> c"
proof (induction ts arbitrary: d ch c)
  case Nil then show ?case by simp
next
  case (Cons t ts)
  from Cons.prems obtain d1 ch1 where
    s1: "relax_rows n t (d, ch) = Inr (d1, ch1)" and s2: "relax_tables n ts (d1, ch1) = Inr (d', ch')"
    by (auto split: sum.splits)
  from relax_rows_le[OF s1 Cons.prems(2)] obtain c1 where "map_of d1 k = Some c1" "c1 \<le> c" by blast
  with Cons.IH[OF s2] show ?case by (meson order_trans)
qed

lemma update_fresh: "k \<notin> fst ` set al \<Longrightarrow> AList.update k v al = al @ [(k, v)]"
  by (induction al) auto

lemma fold_update_distinct:
  "distinct (map fst acc) \<Longrightarrow>
   distinct (map fst (fold (\<lambda>r d. case r of (_, dst, c) \<Rightarrow> AList.update dst c d) t acc))"
  by (induction t arbitrary: acc) (auto simp: AList.distinct_update split: prod.splits)

lemma distinct_dict_of_table: "distinct (map fst (dict_of_table t))"
  by (simp add: dict_of_table_def fold_update_distinct)

lemma fold_update_table_of_dict:
  "distinct (map fst (acc @ d)) \<Longrightarrow>
   fold (\<lambda>r d. case r of (_, dst, c) \<Rightarrow> AList.update dst c d) (table_of_dict n d) acc = acc @ d"
proof (induction d arbitrary: acc)
  case Nil then show ?case by (simp add: table_of_dict_def)
next
  case (Cons p d)
  obtain k v where p: "p = (k, v)" by (cases p)
  from Cons.prems p have fresh: "k \<notin> fst ` set acc" by auto
  from Cons.prems p have "distinct (map fst ((acc @ [(k, v)]) @ d))" by auto
  from Cons.IH[OF this] show ?case
    using fresh p by (simp add: table_of_dict_def update_fresh)
qed

lemma dict_of_table_of_dict:
  "distinct (map fst d) \<Longrightarrow> dict_of_table (table_of_dict n d) = d"
  using fold_update_table_of_dict[of "[]" d n] by (simp add: dict_of_table_def)

subsection \<open>Association lists\<close>

lemma keys_map_entry [simp]: "keys (AList.map_entry k f g) = keys g"
  by (induction g) (auto simp: keys_def)

lemma map_of_map_entry_same:
  "map_of g k = Some nd \<Longrightarrow> map_of (AList.map_entry k f g) k = Some (f nd)"
  by (simp add: AList.map_of_map_entry)

lemma map_of_map_entry_other:
  "k' \<noteq> k \<Longrightarrow> map_of (AList.map_entry k f g) k' = map_of g k'"
  by (simp add: AList.map_of_map_entry)

lemma map_of_keys: "map_of g k \<noteq> None \<longleftrightarrow> k \<in> set (keys g)"
  by (simp add: keys_def map_of_eq_None_iff)

lemma in_keys_obtain:
  assumes "k \<in> set (keys g)"
  obtains nd where "map_of g k = Some nd"
  using assms map_of_keys[of g k] by auto

subsection \<open>Edges are read-only\<close>

lemma calculate_cost_edges_of:
  "calculate_cost g s d =
     (if s = d then 0
      else case edges_of g s of
             None \<Rightarrow> Inf
           | Some es \<Rightarrow> (case find (\<lambda>e. destination e = d) es of
                          Some e \<Rightarrow> weight e | None \<Rightarrow> Inf))"
  by (simp add: calculate_cost_def edges_of_def split: option.splits)

lemma calculate_cost_cong:
  assumes "edges_of g' = edges_of g"
  shows "calculate_cost g' = calculate_cost g"
proof (intro ext)
  fix s d
  show "calculate_cost g' s d = calculate_cost g s d"
    unfolding calculate_cost_edges_of assms ..
qed

lemma transmits_cong:
  assumes "edges_of g' = edges_of g"
  shows "transmits g' = transmits g"
proof (intro ext)
  fix s d
  show "transmits g' s d = transmits g s d"
    unfolding transmits_def calculate_cost_cong[OF assms] ..
qed

lemma edges_of_map_entry:
  "(\<And>nd. edges (f nd) = edges nd) \<Longrightarrow> edges_of (AList.map_entry k f g) = edges_of g"
  by (intro ext) (simp add: edges_of_def AList.map_of_map_entry split: option.splits)

lemma send_pairs_cong:
  "edges_of g' = edges_of g \<Longrightarrow> keys g' = keys g \<Longrightarrow> send_pairs g' = send_pairs g"
  by (simp add: send_pairs_def transmits_cong[of g' g])

text \<open>
  Claim C10. \<open>DVAlgoLinkChange\<close> writes table rows only: whenever it returns, the
  graph has the same keys and every node the same edge list as before, so
  \<open>calculate_cost\<close> gives the same cost for every pair of names, and
  \<open>sendDVtoNeighbor\<close> transmits between the same (sender, receiver) pairs, in the
  same order. The pairs are decided by the edge weights of the graph as it was built,
  not by the overwritten table rows.
\<close>

theorem DVAlgoLinkChange_keeps_edges:
  assumes "DVAlgoLinkChange g sourceid destid link_cost = Inr (g', st)"
  shows "keys g' = keys g \<and>
         (\<forall>n. map_option edges (map_of g' n) = map_option edges (map_of g n)) \<and>
         (\<forall>s d. calculate_cost g' s d = calculate_cost g s d) \<and>
         (\<forall>s d. transmits g' s d = transmits g s d) \<and>
         send_pairs g' = send_pairs g"
proof -
  from assms have e: "edges_of g' = edges_of g" and k: "keys g' = keys g"
    by (auto simp: DVAlgoLinkChange_def Let_def edges_of_map_entry
             split: option.splits if_splits)
  from e have "\<forall>n. map_option edges (map_of g' n) = map_option edges (map_of g n)"
    by (auto simp: edges_of_def fun_eq_iff)
  with k show ?thesis
    by (simp add: calculate_cost_cong[OF e] transmits_cong[OF e] send_pairs_cong[OF e k])
qed

subsection \<open>The example of the specification\<close>

lemma build_example: "build_graph example_lines = example_nodes"
  by (simp add: build_graph_def example_lines_def example_nodes_def add_line_def keys_def
                new_node_def addEdge_def)

lemma init_example: "initDVtable example_nodes = example_graph"
  by (simp add: initDVtable_def example_graph_def example_nodes_def with_tables_def keys_def
        append_row_def calculate_cost_def zero_cost_def)

subsection \<open>Tables and mailboxes under an update of one node\<close>

lemma table_of_map_entry:
  "table_of (AList.map_entry k f g) n =
     (if n = k then (case map_of g k of None \<Rightarrow> [] | Some nd \<Rightarrow> initTable (f nd))
      else table_of g n)"
  by (simp add: table_of_def AList.map_of_map_entry split: option.splits)

lemma mailbox_of_map_entry:
  "mailbox_of (AList.map_entry k f g) n =
     (if n = k then (case map_of g k of None \<Rightarrow> [] | Some nd \<Rightarrow> updatedInit (f nd))
      else mailbox_of g n)"
  by (simp add: mailbox_of_def AList.map_of_map_entry split: option.splits)

lemma table_of_set_table:
  "F [] = [] \<Longrightarrow>
   table_of (AList.map_entry k (\<lambda>nd. nd\<lparr>initTable := F (initTable nd)\<rparr>) g) n =
     (if n = k then F (table_of g n) else table_of g n)"
  by (simp add: table_of_map_entry) (simp add: table_of_def split: option.splits)

lemma mailbox_of_set_table:
  "mailbox_of (AList.map_entry k (\<lambda>nd. nd\<lparr>initTable := F nd\<rparr>) g) n = mailbox_of g n"
  by (simp add: mailbox_of_map_entry) (simp add: mailbox_of_def split: option.splits)

subsection \<open>Overwriting one row\<close>

lemma length_set_link [simp]: "length (set_link s d c t) = length t"
  by (induction t) (auto split: prod.splits)

lemma set_link_nth_other:
  "i < length t \<Longrightarrow> (fst (t ! i), fst (snd (t ! i))) \<noteq> (s, d) \<Longrightarrow> set_link s d c t ! i = t ! i"
proof (induction t arbitrary: i)
  case Nil then show ?case by simp
next
  case (Cons r t)
  show ?case
  proof (cases i)
    case 0
    with Cons.prems show ?thesis by (auto split: prod.splits)
  next
    case (Suc j)
    with Cons show ?thesis by (auto split: prod.splits)
  qed
qed

lemma set_link_absent: "entry t s d = None \<Longrightarrow> set_link s d c t = t"
  by (induction t) (auto simp: entry_def split: prod.splits if_splits)

lemma entry_set_link_same:
  "entry (set_link s d c t) s d = (if entry t s d = None then None else Some c)"
  by (induction t) (auto simp: entry_def split: prod.splits)

lemma entry_set_link_other:
  "(s', d') \<noteq> (s, d) \<Longrightarrow> entry (set_link s d c t) s' d' = entry t s' d'"
  by (induction t) (auto simp: entry_def split: prod.splits)

lemma set_link_Nil: "set_link s d c [] = []"
  by simp

lemma DVAlgoLinkChange_tables:
  assumes "sourceid \<in> set (keys g)" "destid \<in> set (keys g)"
  shows "\<exists>g'. DVAlgoLinkChange g sourceid destid (Some c) = Inr (g', Returned_None) \<and>
           keys g' = keys g \<and>
           (\<forall>n. mailbox_of g' n = mailbox_of g n) \<and>
           (\<forall>n. table_of g' n =
                  (let t1 = (if n = sourceid then set_link sourceid destid c (table_of g n)
                             else table_of g n)
                   in if n = destid then set_link destid sourceid c t1 else t1))"
  using assms
  by (simp add: DVAlgoLinkChange_def Let_def table_of_set_table[where F="set_link a b c" for a b c]
        mailbox_of_set_table)

text \<open>
  Claim C7. When both nodes are keys of the graph and each of the two tables has a row
  for the other node, \<open>DVAlgoLinkChange\<close> returns normally; afterwards the row
  (a, b) of the table of a and the row (b, a) of the table of b both hold the new
  cost, every table has its old length, every row that is not one of these two is
  unchanged at its position, and keys and mailboxes are unchanged.
\<close>

theorem DVAlgoLinkChange_symmetric_frame:
  assumes "sourceid \<in> set (keys g)" and "destid \<in> set (keys g)"
    and "entry (table_of g sourceid) sourceid destid \<noteq> None"
    and "entry (table_of g destid) destid sourceid \<noteq> None"
  shows "\<exists>g'. DVAlgoLinkChange g sourceid destid (Some c) = Inr (g', Returned_None) \<and>
           entry (table_of g' sourceid) sourceid destid = Some c \<and>
           entry (table_of g' destid) destid sourceid = Some c \<and>
           keys g' = keys g \<and>
           (\<forall>n. mailbox_of g' n = mailbox_of g n) \<and>
           (\<forall>n. length (table_of g' n) = length (table_of g n)) \<and>
           (\<forall>n i. i < length (table_of g n) \<longrightarrow>
                  \<not> (n = sourceid \<and> fst (table_of g n ! i) = sourceid
                                   \<and> fst (snd (table_of g n ! i)) = destid) \<longrightarrow>
                  \<not> (n = destid \<and> fst (table_of g n ! i) = destid
                                 \<and> fst (snd (table_of g n ! i)) = sourceid) \<longrightarrow>
                  table_of g' n ! i = table_of g n ! i)"
proof -
  from DVAlgoLinkChange_tables[OF assms(1,2), of c] obtain g' where
    r: "DVAlgoLinkChange g sourceid destid (Some c) = Inr (g', Returned_None)" and
    k: "keys g' = keys g" and m: "\<forall>n. mailbox_of g' n = mailbox_of g n" and
    t: "\<And>n. table_of g' n =
          (let t1 = (if n = sourceid then set_link sourceid destid c (table_of g n)
                     else table_of g n)
           in if n = destid then set_link destid sourceid c t1 else t1)"
    by blast
  have e1: "entry (table_of g' sourceid) sourceid destid = Some c"
    using assms(3) by (auto simp: t Let_def entry_set_link_same entry_set_link_other)
  have e2: "entry (table_of g' destid) destid sourceid = Some c"
    using assms(4) by (auto simp: t Let_def entry_set_link_same entry_set_link_other)
  have len: "\<forall>n. length (table_of g' n) = length (table_of g n)"
    by (simp add: t Let_def)
  have frame: "table_of g' n ! i = table_of g n ! i"
    if "i < length (table_of g n)"
      and "\<not> (n = sourceid \<and> fst (table_of g n ! i) = sourceid
                \<and> fst (snd (table_of g n ! i)) = destid)"
      and "\<not> (n = destid \<and> fst (table_of g n ! i) = destid
                \<and> fst (snd (table_of g n ! i)) = sourceid)" for n i
    using that by (auto simp: t Let_def set_link_nth_other)
  from r e1 e2 k m len frame show ?thesis by blast
qed

text \<open>
  Claim C4 as stated fails: node 2 has no row for node 1, yet the call returns
  normally and the row (1, 2) of node 1 is overwritten.
\<close>

theorem DVAlgoLinkChange_partial_counterexample:
  "entry (table_of one_way_graph ''2'') ''2'' ''1'' = None \<and>
   DVAlgoLinkChange one_way_graph ''1'' ''2'' (Some (Fin 100)) =
     Inr (with_tables example_nodes
            [[(''1'', ''1'', Fin 0), (''1'', ''2'', Fin 100), (''1'', ''3'', Fin 10)],
             [(''2'', ''2'', Fin 0), (''2'', ''3'', Fin 1)],
             [(''3'', ''1'', Fin 10), (''3'', ''2'', Fin 1), (''3'', ''3'', Fin 0)]],
          Returned_None) \<and>
   table_of one_way_graph ''1'' =
     [(''1'', ''1'', Fin 0), (''1'', ''2'', Fin 3), (''1'', ''3'', Fin 10)]"
  by (simp add: DVAlgoLinkChange_def one_way_graph_def example_nodes_def with_tables_def
        keys_def entry_def table_of_def)

text \<open>
  Claim C4, amended. If one of the two names is not a key of the graph, the call
  returns \<open>'Not Exist'\<close> and the graph is unchanged. If both are keys the call
  returns normally, whatever the tables hold: the tables of all other nodes are
  unchanged, each of the two rows is overwritten exactly when it exists, independently
  of the other, and when both rows are missing no table changes.
\<close>

theorem DVAlgoLinkChange_failure_frame:
  "(sourceid \<notin> set (keys g) \<or> destid \<notin> set (keys g) \<longrightarrow>
      DVAlgoLinkChange g sourceid destid (Some c) = Inr (g, Not_Exist)) \<and>
   (sourceid \<in> set (keys g) \<and> destid \<in> set (keys g) \<longrightarrow>
      (\<exists>g'. DVAlgoLinkChange g sourceid destid (Some c) = Inr (g', Returned_None) \<and>
         (\<forall>n. n \<noteq> sourceid \<and> n \<noteq> destid \<longrightarrow> table_of g' n = table_of g n) \<and>
         (entry (table_of g sourceid) sourceid destid = None \<longrightarrow>
            entry (table_of g' sourceid) sourceid destid = None) \<and>
         (entry (table_of g destid) destid sourceid = None \<longrightarrow>
            entry (table_of g' destid) destid sourceid = None) \<and>
         (entry (table_of g sourceid) sourceid destid \<noteq> None \<longrightarrow>
            entry (table_of g' sourceid) sourceid destid = Some c) \<and>
         (entry (table_of g destid) destid sourceid \<noteq> None \<longrightarrow>
            entry (table_of g' destid) destid sourceid = Some c) \<and>
         (entry (table_of g sourceid) sourceid destid = None \<and>
          entry (table_of g destid) destid sourceid = None \<longrightarrow>
            (\<forall>n. table_of g' n = table_of g n))))"
proof (intro conjI impI)
  assume "sourceid \<notin> set (keys g) \<or> destid \<notin> set (keys g)"
  then show "DVAlgoLinkChange g sourceid destid (Some c) = Inr (g, Not_Exist)"
    by (auto simp: DVAlgoLinkChange_def)
next
  assume both: "sourceid \<in> set (keys g) \<and> destid \<in> set (keys g)"
  then obtain g' where
    r: "DVAlgoLinkChange g sourceid destid (Some c) = Inr (g', Returned_None)" and
    t: "\<And>n. table_of g' n =
          (let t1 = (if n = sourceid then set_link sourceid destid c (table_of g n)
                     else table_of g n)
           in if n = destid then set_link destid sourceid c t1 else t1)"
    using DVAlgoLinkChange_tables[of sourceid g destid c] by (elim conjE exE) blast
  have 1: "\<forall>n. n \<noteq> sourceid \<and> n \<noteq> destid \<longrightarrow> table_of g' n = table_of g n"
    by (simp add: t)
  have 2: "entry (table_of g' sourceid) sourceid destid =
             (if entry (table_of g sourceid) sourceid destid = None then None else Some c)"
    by (auto simp: t Let_def entry_set_link_same entry_set_link_other)
  have 3: "entry (table_of g' destid) destid sourceid =
             (if entry (table_of g destid) destid sourceid = None then None else Some c)"
    by (auto simp: t Let_def entry_set_link_same entry_set_link_other)
  have 4: "\<forall>n. table_of g' n = table_of g n"
    if "entry (table_of g sourceid) sourceid destid = None \<and>
        entry (table_of g destid) destid sourceid = None"
    using that by (auto simp: t Let_def set_link_absent)
  from r 1 2 3 4 show "\<exists>g'. DVAlgoLinkChange g sourceid destid (Some c) = Inr (g', Returned_None) \<and>
         (\<forall>n. n \<noteq> sourceid \<and> n \<noteq> destid \<longrightarrow> table_of g' n = table_of g n) \<and>
         (entry (table_of g sourceid) sourceid destid = None \<longrightarrow>
            entry (table_of g' sourceid) sourceid destid = None) \<and>
         (entry (table_of g destid) destid sourceid = None \<longrightarrow>
            entry (table_of g' destid) destid sourceid = None) \<and>
         (entry (table_of g sourceid) sourceid destid \<noteq> None \<longrightarrow>
            entry (table_of g' sourceid) sourceid destid = Some c) \<and>
         (entry (table_of g destid) destid sourceid \<noteq> None \<longrightarrow>
            entry (table_of g' destid) destid sourceid = Some c) \<and>
         (entry (table_of g sourceid) sourceid destid = None \<and>
          entry (table_of g destid) destid sourceid = None \<longrightarrow>
            (\<forall>n. table_of g' n = table_of g n))"
    by (intro exI[of _ g']) simp
qed

text \<open>
  Claim C4, amended, on the example of the specification (\<open>mutate(1, 4, 5)\<close> on the
  graph of three nodes) and on the graph in which node 2 lacks its row for node 1.
\<close>

theorem DVAlgoLinkChange_failure_frame_witness:
  "''4'' \<notin> set (keys example_graph) \<and>
   DVAlgoLinkChange example_graph ''1'' ''4'' (Some (Fin 5)) = Inr (example_graph, Not_Exist) \<and>
   (\<exists>g'. DVAlgoLinkChange one_way_graph ''1'' ''2'' (Some (Fin 100)) = Inr (g', Returned_None) \<and>
      entry (table_of g' ''1'') ''1'' ''2'' = Some (Fin 100) \<and>
      entry (table_of g' ''2'') ''2'' ''1'' = None \<and>
      table_of g' ''3'' = table_of one_way_graph ''3'')"
proof -
  have k: "''4'' \<notin> set (keys example_graph)"
    by (simp add: example_graph_def example_nodes_def with_tables_def keys_def)
  have k2: "''1'' \<in> set (keys one_way_graph) \<and> ''2'' \<in> set (keys one_way_graph)"
    by (simp add: one_way_graph_def example_nodes_def with_tables_def keys_def)
  have e1: "entry (table_of one_way_graph ''1'') ''1'' ''2'' \<noteq> None"
    by (simp add: one_way_graph_def example_nodes_def with_tables_def entry_def table_of_def)
  have e2: "entry (table_of one_way_graph ''2'') ''2'' ''1'' = None"
    by (simp add: one_way_graph_def example_nodes_def with_tables_def entry_def table_of_def)
  have a: "DVAlgoLinkChange example_graph ''1'' ''4'' (Some (Fin 5)) = Inr (example_graph, Not_Exist)"
    by (rule mp[OF conjunct1[OF DVAlgoLinkChange_failure_frame]]) (simp add: k)
  from mp[OF conjunct2[OF DVAlgoLinkChange_failure_frame[of "''1''" one_way_graph "''2''" "Fin 100"]] k2]
  obtain g' where
    r: "DVAlgoLinkChange one_way_graph ''1'' ''2'' (Some (Fin 100)) = Inr (g', Returned_None)" and
    f: "\<forall>n. n \<noteq> ''1'' \<and> n \<noteq> ''2'' \<longrightarrow> table_of g' n = table_of one_way_graph n" and
    n2: "entry (table_of one_way_graph ''2'') ''2'' ''1'' = None \<longrightarrow>
            entry (table_of g' ''2'') ''2'' ''1'' = None" and
    n1: "entry (table_of one_way_graph ''1'') ''1'' ''2'' \<noteq> None \<longrightarrow>
            entry (table_of g' ''1'') ''1'' ''2'' = Some (Fin 100)"
    by (elim exE conjE)
  from f have f3: "table_of g' ''3'' = table_of one_way_graph ''3''" by simp
  from n1 e1 have m1: "entry (table_of g' ''1'') ''1'' ''2'' = Some (Fin 100)" by (rule mp)
  from n2 e2 have m2: "entry (table_of g' ''2'') ''2'' ''1'' = None" by (rule mp)
  have b:
    "\<exists>g'. DVAlgoLinkChange one_way_graph ''1'' ''2'' (Some (Fin 100)) = Inr (g', Returned_None) \<and>
      entry (table_of g' ''1'') ''1'' ''2'' = Some (Fin 100) \<and>
      entry (table_of g' ''2'') ''2'' ''1'' = None \<and>
      table_of g' ''3'' = table_of one_way_graph ''3''"
    by (rule exI[of _ g']) (intro conjI r m1 m2 f3)
  show ?thesis by (intro conjI k a b)
qed

lemma relink_example:
  "DVAlgoLinkChange example_graph ''1'' ''2'' (Some (Fin 100)) = Inr (relinked_graph, Returned_None)"
  by (simp add: DVAlgoLinkChange_def example_graph_def example_nodes_def with_tables_def keys_def
        relinked_graph_def)

text \<open>
  Claim C10 on the example of the specification: after the link 1-2 is set to 100 the
  direct cost from 1 to 2 is still the edge weight 3, and the send pairs are the same.
\<close>

theorem DVAlgoLinkChange_keeps_edges_witness:
  "DVAlgoLinkChange example_graph ''1'' ''2'' (Some (Fin 100)) = Inr (relinked_graph, Returned_None) \<and>
   keys relinked_graph = keys example_graph \<and>
   calculate_cost relinked_graph ''1'' ''2'' = calculate_cost example_graph ''1'' ''2'' \<and>
   calculate_cost example_graph ''1'' ''2'' = Fin 3 \<and>
   send_pairs relinked_graph = send_pairs example_graph"
proof -
  note r = DVAlgoLinkChange_keeps_edges[OF relink_example]
  have k: "keys relinked_graph = keys example_graph"
    using r by (rule conjunct1)
  have c: "calculate_cost relinked_graph ''1'' ''2'' = calculate_cost example_graph ''1'' ''2''"
    using r by simp
  have s: "send_pairs relinked_graph = send_pairs example_graph"
    using r by simp
  have v: "calculate_cost example_graph ''1'' ''2'' = Fin 3"
    by (simp add: calculate_cost_def example_graph_def example_nodes_def with_tables_def)
  show ?thesis by (intro conjI relink_example k c v s)
qed

lemma example_keys: "keys example_graph = [''1'', ''2'', ''3'']"
  by (simp add: example_graph_def example_nodes_def with_tables_def keys_def)

text \<open>
  Claim C7 on the example of the specification: \<open>mutate(1, 2, 100)\<close> succeeds, both
  rows become 100, and the row of node 1 for node 3 keeps its cost.
\<close>

theorem DVAlgoLinkChange_symmetric_frame_witness:
  "''1'' \<in> set (keys example_graph) \<and> ''2'' \<in> set (keys example_graph) \<and>
   entry (table_of example_graph ''1'') ''1'' ''2'' = Some (Fin 3) \<and>
   entry (table_of example_graph ''2'') ''2'' ''1'' = Some (Fin 3) \<and>
   (\<exists>g'. DVAlgoLinkChange example_graph ''1'' ''2'' (Some (Fin 100)) = Inr (g', Returned_None) \<and>
      entry (table_of g' ''1'') ''1'' ''2'' = Some (Fin 100) \<and>
      entry (table_of g' ''2'') ''2'' ''1'' = Some (Fin 100) \<and>
      table_of g' ''1'' ! 2 = table_of example_graph ''1'' ! 2 \<and>
      table_of g' ''3'' ! 0 = table_of example_graph ''3'' ! 0)"
proof -
  have k1: "''1'' \<in> set (keys example_graph)" and k2: "''2'' \<in> set (keys example_graph)"
    by (simp_all add: example_keys)
  have t1: "table_of example_graph ''1'' =
              [(''1'', ''1'', Fin 0), (''1'', ''2'', Fin 3), (''1'', ''3'', Fin 10)]"
    and t2: "table_of example_graph ''2'' =
              [(''2'', ''1'', Fin 3), (''2'', ''2'', Fin 0), (''2'', ''3'', Fin 1)]"
    and t3: "table_of example_graph ''3'' =
              [(''3'', ''1'', Fin 10), (''3'', ''2'', Fin 1), (''3'', ''3'', Fin 0)]"
    by (simp_all add: example_graph_def example_nodes_def with_tables_def table_of_def)
  have e1: "entry (table_of example_graph ''1'') ''1'' ''2'' = Some (Fin 3)"
    and e2: "entry (table_of example_graph ''2'') ''2'' ''1'' = Some (Fin 3)"
    by (simp_all add: t1 t2 entry_def)
  have n1: "entry (table_of example_graph ''1'') ''1'' ''2'' \<noteq> None"
    and n2: "entry (table_of example_graph ''2'') ''2'' ''1'' \<noteq> None"
    by (simp_all add: e1 e2)
  from DVAlgoLinkChange_symmetric_frame[OF k1 k2 n1 n2, of "Fin 100"]
  obtain g' where
    r: "DVAlgoLinkChange example_graph ''1'' ''2'' (Some (Fin 100)) = Inr (g', Returned_None)" and
    a: "entry (table_of g' ''1'') ''1'' ''2'' = Some (Fin 100)" and
    b: "entry (table_of g' ''2'') ''2'' ''1'' = Some (Fin 100)" and
    f: "\<forall>n i. i < length (table_of example_graph n) \<longrightarrow>
                  \<not> (n = ''1'' \<and> fst (table_of example_graph n ! i) = ''1''
                                   \<and> fst (snd (table_of example_graph n ! i)) = ''2'') \<longrightarrow>
                  \<not> (n = ''2'' \<and> fst (table_of example_graph n ! i) = ''2''
                                 \<and> fst (snd (table_of example_graph n ! i)) = ''1'') \<longrightarrow>
                  table_of g' n ! i = table_of example_graph n ! i"
    by (elim exE conjE)
  have f1: "table_of g' ''1'' ! 2 = table_of example_graph ''1'' ! 2"
    using f[rule_format, of 2 "''1''"] by (simp add: t1)
  have f3: "table_of g' ''3'' ! 0 = table_of example_graph ''3'' ! 0"
    using f[rule_format, of 0 "''3''"] by (simp add: t3)
  have ex: "\<exists>g'. DVAlgoLinkChange example_graph ''1'' ''2'' (Some (Fin 100)) = Inr (g', Returned_None) \<and>
      entry (table_of g' ''1'') ''1'' ''2'' = Some (Fin 100) \<and>
      entry (table_of g' ''2'') ''2'' ''1'' = Some (Fin 100) \<and>
      table_of g' ''1'' ! 2 = table_of example_graph ''1'' ! 2 \<and>
      table_of g' ''3'' ! 0 = table_of example_graph ''3'' ! 0"
    by (rule exI[of _ g']) (intro conjI r a b f1 f3)
  show ?thesis by (intro conjI k1 k2 e1 e2 ex)
qed

subsection \<open>The relaxation never raises a cost\<close>

lemma cost_in_table_of_dict:
  "distinct (map fst d) \<Longrightarrow> cost_in (table_of_dict n d) = map_of d"
  by (intro ext) (simp add: cost_in_def dict_of_table_of_dict)

lemma update_node_result:
  assumes "update_node n tbl batch = Inr (t', ch)"
  obtains d where "relax_tables n batch (dict_of_table tbl, False) = Inr (d, ch)"
    and "t' = table_of_dict n d" and "map fst d = map fst (dict_of_table tbl)"
    and "cost_in t' = map_of d"
proof -
  from assms obtain d where
    r: "relax_tables n batch (dict_of_table tbl, False) = Inr (d, ch)" and t: "t' = table_of_dict n d"
    by (auto simp: update_node_def split: sum.splits)
  from relax_tables_keys[OF r] have k: "map fst d = map fst (dict_of_table tbl)" .
  then have "distinct (map fst d)" by (simp add: distinct_dict_of_table)
  then have "cost_in t' = map_of d" by (simp add: t cost_in_table_of_dict)
  with r t k that show ?thesis by blast
qed

lemma updateDV_result:
  assumes "updateDV g node_id = Inr (g', t', changed)"
  shows "node_id \<in> set (keys g) \<and>
         update_node node_id (table_of g node_id) (mailbox_of g node_id) = Inr (t', changed) \<and>
         g' = AList.map_entry node_id (\<lambda>nd. nd\<lparr>initTable := t'\<rparr>) g \<and>
         table_of g' node_id = t'"
proof -
  from assms obtain nd where nd: "map_of g node_id = Some nd"
    by (auto simp: updateDV_def split: option.splits)
  then have k: "node_id \<in> set (keys g)" using map_of_keys[of g node_id] by simp
  from assms nd have u: "update_node node_id (initTable nd) (updatedInit nd) = Inr (t', changed)"
    and g': "g' = AList.map_entry node_id (\<lambda>nd. nd\<lparr>initTable := t'\<rparr>) g"
    by (auto simp: updateDV_def split: sum.splits)
  from nd have "table_of g' node_id = t'"
    by (simp add: g' table_of_map_entry)
  with k u g' nd show ?thesis by (simp add: table_of_def mailbox_of_def)
qed

lemma table_of_dict_names:
  "map fst (table_of_dict n d) = replicate (length d) n \<and>
   map (\<lambda>r. fst (snd r)) (table_of_dict n d) = map fst d"
  by (induction d) (auto simp: table_of_dict_def)

text \<open>
  Claim C9. Whenever \<open>updateDV\<close> returns, every destination that the node's table
  held before the call is still in the returned table, with a cost that is at most
  the cost before; the returned table is the one stored in the graph, and it lists
  the same destinations in the same order as the dict read from the old table.
\<close>

theorem updateDV_never_increases:
  assumes "updateDV g node_id = Inr (g', t', changed)"
    and "cost_in (table_of g node_id) d = Some c"
  shows "(\<exists>c'. cost_in t' d = Some c' \<and> c' \<le> c) \<and>
         table_of g' node_id = t' \<and>
         map (\<lambda>r. fst (snd r)) t' = map fst (dict_of_table (table_of g node_id))"
proof -
  note r = updateDV_result[OF assms(1)]
  from r have u: "update_node node_id (table_of g node_id) (mailbox_of g node_id) = Inr (t', changed)"
    by simp
  from u obtain dd where
    rel: "relax_tables node_id (mailbox_of g node_id) (dict_of_table (table_of g node_id), False)
            = Inr (dd, changed)" and
    t': "t' = table_of_dict node_id dd" and
    ks: "map fst dd = map fst (dict_of_table (table_of g node_id))" and
    ci: "cost_in t' = map_of dd"
    by (rule update_node_result)
  from assms(2) have "map_of (dict_of_table (table_of g node_id)) d = Some c"
    by (simp add: cost_in_def)
  from relax_tables_le[OF rel this] have 1: "\<exists>c'. cost_in t' d = Some c' \<and> c' \<le> c"
    by (simp add: ci)
  have 3: "map (\<lambda>r. fst (snd r)) t' = map fst (dict_of_table (table_of g node_id))"
    by (simp add: t' table_of_dict_names ks)
  from r have 2: "table_of g' node_id = t'" by blast
  show ?thesis by (intro conjI 1 2 3)
qed

lemma updateDV_example:
  "updateDV example_sent ''1'' =
     Inr (example_sent_1, [(''1'', ''1'', Fin 0), (''1'', ''2'', Fin 3), (''1'', ''3'', Fin 4)], True)"
  by (simp add: updateDV_def update_node_def example_sent_def example_graph_def example_nodes_def
        with_tables_def with_mail_def dict_of_table_def relax_row_def table_of_dict_def
        example_sent_1_def)

lemma table_example_sent_1:
  "table_of example_sent ''1'' = [(''1'', ''1'', Fin 0), (''1'', ''2'', Fin 3), (''1'', ''3'', Fin 10)]"
  by (simp add: example_sent_def example_graph_def example_nodes_def with_tables_def with_mail_def
        table_of_def)

text \<open>
  Claim C9 on the example of the specification: the first update of node 1 lowers its
  cost to node 3 from 10 to 4.
\<close>

theorem updateDV_never_increases_witness:
  "updateDV example_sent ''1'' =
     Inr (example_sent_1, [(''1'', ''1'', Fin 0), (''1'', ''2'', Fin 3), (''1'', ''3'', Fin 4)], True) \<and>
   cost_in (table_of example_sent ''1'') ''3'' = Some (Fin 10) \<and>
   cost_in [(''1'', ''1'', Fin 0), (''1'', ''2'', Fin 3), (''1'', ''3'', Fin 4)] ''3'' = Some (Fin 4) \<and>
   (\<exists>c'. cost_in [(''1'', ''1'', Fin 0), (''1'', ''2'', Fin 3), (''1'', ''3'', Fin 4)] ''3'' = Some c'
          \<and> c' \<le> Fin 10)"
proof -
  have h: "cost_in (table_of example_sent ''1'') ''3'' = Some (Fin 10)"
    by (simp add: table_example_sent_1 cost_in_def dict_of_table_def)
  have v: "cost_in [(''1'', ''1'', Fin 0), (''1'', ''2'', Fin 3), (''1'', ''3'', Fin 4)] ''3'' = Some (Fin 4)"
    by (simp add: cost_in_def dict_of_table_def)
  from updateDV_never_increases[OF updateDV_example h]
  have e: "\<exists>c'. cost_in [(''1'', ''1'', Fin 0), (''1'', ''2'', Fin 3), (''1'', ''3'', Fin 4)] ''3'' = Some c'
          \<and> c' \<le> Fin 10"
    by (rule conjunct1)
  show ?thesis by (intro conjI updateDV_example h v e)
qed

subsection \<open>The relaxation against the rule of the specification\<close>

lemma relax_rows_append:
  "relax_rows n (xs @ ys) st =
     (case relax_rows n xs st of Inl e \<Rightarrow> Inl e | Inr st' \<Rightarrow> relax_rows n ys st')"
  by (induction xs arbitrary: st) (auto split: sum.splits)

lemma relax_tables_concat: "relax_tables n ts st = relax_rows n (concat ts) st"
  by (induction ts arbitrary: st) (auto simp: relax_rows_append split: sum.splits)

lemma spec_relax_count:
  "spec_relax rule rs (m, k) =
     (fst (spec_relax rule rs (m, 0)), k + snd (spec_relax rule rs (m, 0)))"
proof (induction rs arbitrary: m k)
  case Nil then show ?case by simp
next
  case (Cons r rs)
  show ?case
  proof (cases "rule m r")
    case None
    then show ?thesis using Cons.IH[of m k] by simp
  next
    case (Some c)
    define m' where "m' = m(fst (snd r) \<mapsto> c)"
    have a: "spec_relax rule (r # rs) (m, j) = spec_relax rule rs (m', Suc j)" for j
      by (simp add: Some m'_def)
    have b: "spec_relax rule rs (m', Suc j) =
               (fst (spec_relax rule rs (m', 0)), Suc j + snd (spec_relax rule rs (m', 0)))" for j
      by (rule Cons.IH)
    show ?thesis by (simp only: a b fst_conv snd_conv) simp
  qed
qed

lemma relax_row_rule:
  assumes "relax_row n r (d, ch) = Inr (d', ch')"
  shows "case spec_candidate_other n (map_of d) r of
           None \<Rightarrow> d' = d \<and> ch' = ch
         | Some cand \<Rightarrow> map_of d' = (map_of d)(fst (snd r) \<mapsto> cand) \<and> ch'"
  using assms
  by (cases r)
     (auto simp: relax_row_def spec_candidate_other_def spec_candidate_def Let_def
        AList.update_conv' split: option.splits cost.splits if_splits)

lemma relax_rows_rule:
  assumes "relax_rows n rs (d, ch) = Inr (d', ch')"
  shows "map_of d' = fst (spec_relax (spec_candidate_other n) rs (map_of d, 0)) \<and>
         ch' = (ch \<or> 0 < snd (spec_relax (spec_candidate_other n) rs (map_of d, 0)))"
  using assms
proof (induction rs arbitrary: d ch)
  case Nil then show ?case by simp
next
  case (Cons r rs)
  from Cons.prems obtain d1 ch1 where
    s1: "relax_row n r (d, ch) = Inr (d1, ch1)" and
    s2: "relax_rows n rs (d1, ch1) = Inr (d', ch')"
    by (auto split: sum.splits)
  note ih = Cons.IH[OF s2]
  note st = relax_row_rule[OF s1]
  show ?case
  proof (cases "spec_candidate_other n (map_of d) r")
    case None
    with st have "d1 = d" "ch1 = ch" by simp_all
    with ih None show ?thesis by simp
  next
    case (Some cand)
    define m' where "m' = (map_of d)(fst (snd r) \<mapsto> cand)"
    from Some st have m1: "map_of d1 = m'" and c1: "ch1" by (simp_all add: m'_def)
    have a: "spec_relax (spec_candidate_other n) (r # rs) (map_of d, 0) =
               spec_relax (spec_candidate_other n) rs (m', Suc 0)"
      by (simp add: Some m'_def)
    have b: "spec_relax (spec_candidate_other n) rs (m', Suc 0) =
               (fst (spec_relax (spec_candidate_other n) rs (m', 0)),
                Suc 0 + snd (spec_relax (spec_candidate_other n) rs (m', 0)))"
      by (rule spec_relax_count)
    from ih have "map_of d' = fst (spec_relax (spec_candidate_other n) rs (m', 0))" and "ch'"
      by (simp_all only: m1 c1 simp_thms)
    then show ?thesis by (simp only: a b fst_conv snd_conv) simp
  qed
qed

lemma relax_row_known:
  assumes "fst (snd r) \<in> fst ` set d"
  shows "\<exists>d' ch'. relax_row n r (d, ch) = Inr (d', ch')"
proof -
  obtain s dst c where r: "r = (s, dst, c)" by (cases r)
  with assms have "map_of d dst \<noteq> None" by (simp add: map_of_eq_None_iff)
  then show ?thesis
    by (auto simp: r relax_row_def Let_def split: option.splits)
qed

lemma relax_rows_known:
  assumes "\<forall>r\<in>set rs. fst (snd r) \<in> fst ` set d"
  shows "\<exists>d' ch'. relax_rows n rs (d, ch) = Inr (d', ch')"
  using assms
proof (induction rs arbitrary: d ch)
  case Nil then show ?case by simp
next
  case (Cons r rs)
  from Cons.prems have "fst (snd r) \<in> fst ` set d" by simp
  from relax_row_known[OF this, of n ch] obtain d1 ch1 where
    s1: "relax_row n r (d, ch) = Inr (d1, ch1)" by blast
  from relax_row_keys[OF s1] have "fst ` set d1 = fst ` set d"
    by (metis list.set_map)
  with Cons.prems have "\<forall>r\<in>set rs. fst (snd r) \<in> fst ` set d1" by simp
  from Cons.IH[OF this, of ch1] s1 show ?case by simp
qed

lemma dom_cost_in: "dom (cost_in t) = fst ` set (dict_of_table t)"
proof -
  have "cost_in t = map_of (dict_of_table t)"
    by (intro ext) (simp add: cost_in_def)
  then show ?thesis by (simp add: dom_map_of_conv_image_fst)
qed

text \<open>
  A row of another, known advertiser for a destination that is not yet a key of the
  dict: the print of the old cost raises \<open>KeyError\<close> before anything is stored.
\<close>

lemma relax_row_unknown_dest:
  "src \<noteq> n \<Longrightarrow> map_of d src = Some c \<Longrightarrow> map_of d dst = None \<Longrightarrow>
   relax_row n (src, dst, rc) (d, ch) = Inl KeyError"
  by (simp add: relax_row_def)

text \<open>
  Claim C1 as stated fails on a row advertised under the node's own name: node 1 holds
  cost 0 for itself and 10 for node 3, so the stated rule adopts 0 + 4 = 4 for node 3
  and reports a change, while \<open>updateDV\<close> skips the row and reports none.
\<close>

theorem updateDV_own_row_counterexample:
  "updateDV echo_graph ''1'' =
     Inr (echo_graph, [(''1'', ''1'', Fin 0), (''1'', ''2'', Fin 3), (''1'', ''3'', Fin 10)], False) \<and>
   snd (spec_relax spec_candidate (concat (mailbox_of echo_graph ''1''))
          (cost_in (table_of echo_graph ''1''), 0)) = 1 \<and>
   fst (spec_relax spec_candidate (concat (mailbox_of echo_graph ''1''))
          (cost_in (table_of echo_graph ''1''), 0)) ''3'' = Some (Fin 4)"
proof -
  have t: "table_of echo_graph ''1'' =
             [(''1'', ''1'', Fin 0), (''1'', ''2'', Fin 3), (''1'', ''3'', Fin 10)]"
    and m: "mailbox_of echo_graph ''1'' = [[(''1'', ''3'', Fin 4)]]"
    by (simp_all add: echo_graph_def example_graph_def example_nodes_def with_tables_def
          with_mail_def table_of_def mailbox_of_def)
  have u: "updateDV echo_graph ''1'' =
     Inr (echo_graph, [(''1'', ''1'', Fin 0), (''1'', ''2'', Fin 3), (''1'', ''3'', Fin 10)], False)"
    by (simp add: updateDV_def update_node_def echo_graph_def example_graph_def example_nodes_def
          with_tables_def with_mail_def dict_of_table_def relax_row_def table_of_dict_def)
  have c: "spec_candidate (cost_in (table_of echo_graph ''1'')) (''1'', ''3'', Fin 4) = Some (Fin 4)"
    by (simp add: t spec_candidate_def cost_in_def dict_of_table_def)
  have s: "snd (spec_relax spec_candidate (concat (mailbox_of echo_graph ''1''))
          (cost_in (table_of echo_graph ''1''), 0)) = 1"
    by (simp add: m c)
  have f: "fst (spec_relax spec_candidate (concat (mailbox_of echo_graph ''1''))
          (cost_in (table_of echo_graph ''1''), 0)) ''3'' = Some (Fin 4)"
    by (simp add: m c)
  show ?thesis by (intro conjI u s f)
qed

text \<open>
  Claim C1, amended. A row is ignored when its advertiser is the node itself or has
  no finite cost in the node's table; otherwise the candidate is the own cost of the
  advertiser plus the advertised cost, and for a destination the table knows it is
  adopted exactly when it is strictly less than the known cost. Whenever \<open>updateDV\<close>
  returns, the returned table read as a dict is the result of this rule over all rows
  of the mailbox in order, the flag is true exactly when at least one candidate was
  adopted, the table is stored in the graph, names the node in every row and keeps
  the destinations in their order. It does return when the node is in the graph and
  every advertised destination is known to the table. What happens for a destination
  the table does not know is left open here.
\<close>

theorem updateDV_follows_rule:
  "(\<forall>g' t' changed. updateDV g node_id = Inr (g', t', changed) \<longrightarrow>
      cost_in t' = fst (spec_relax (spec_candidate_other node_id) (concat (mailbox_of g node_id))
                          (cost_in (table_of g node_id), 0)) \<and>
      changed = (0 < snd (spec_relax (spec_candidate_other node_id) (concat (mailbox_of g node_id))
                            (cost_in (table_of g node_id), 0))) \<and>
      table_of g' node_id = t' \<and>
      map fst t' = replicate (length t') node_id \<and>
      map (\<lambda>r. fst (snd r)) t' = map fst (dict_of_table (table_of g node_id))) \<and>
   (node_id \<in> set (keys g) \<and>
    (\<forall>t\<in>set (mailbox_of g node_id). \<forall>r\<in>set t.
        fst (snd r) \<in> dom (cost_in (table_of g node_id))) \<longrightarrow>
      (\<exists>g' t' changed. updateDV g node_id = Inr (g', t', changed)))"
proof (intro conjI allI impI)
  fix g' t' changed
  assume ret: "updateDV g node_id = Inr (g', t', changed)"
  note r = updateDV_result[OF ret]
  from r have u: "update_node node_id (table_of g node_id) (mailbox_of g node_id) = Inr (t', changed)"
    by simp
  from u obtain dd where
    rel: "relax_tables node_id (mailbox_of g node_id) (dict_of_table (table_of g node_id), False)
            = Inr (dd, changed)" and
    t': "t' = table_of_dict node_id dd" and
    ks: "map fst dd = map fst (dict_of_table (table_of g node_id))" and
    ci: "cost_in t' = map_of dd"
    by (rule update_node_result)
  have m0: "map_of (dict_of_table (table_of g node_id)) = cost_in (table_of g node_id)"
    by (intro ext) (simp add: cost_in_def)
  from rel have "relax_rows node_id (concat (mailbox_of g node_id))
                   (dict_of_table (table_of g node_id), False) = Inr (dd, changed)"
    by (simp add: relax_tables_concat)
  from relax_rows_rule[OF this]
  have a: "map_of dd = fst (spec_relax (spec_candidate_other node_id) (concat (mailbox_of g node_id))
                          (cost_in (table_of g node_id), 0))"
    and b: "changed = (0 < snd (spec_relax (spec_candidate_other node_id) (concat (mailbox_of g node_id))
                            (cost_in (table_of g node_id), 0)))"
    unfolding m0 by simp_all
  show "cost_in t' = fst (spec_relax (spec_candidate_other node_id) (concat (mailbox_of g node_id))
                          (cost_in (table_of g node_id), 0))"
    using a ci by simp
  show "changed = (0 < snd (spec_relax (spec_candidate_other node_id) (concat (mailbox_of g node_id))
                            (cost_in (table_of g node_id), 0)))"
    by (rule b)
  show "table_of g' node_id = t'" using r by blast
  show "map fst t' = replicate (length t') node_id"
    by (simp add: t' table_of_dict_names) (simp add: table_of_dict_def)
  show "map (\<lambda>r. fst (snd r)) t' = map fst (dict_of_table (table_of g node_id))"
    by (simp add: t' table_of_dict_names ks)
next
  assume h: "node_id \<in> set (keys g) \<and>
    (\<forall>t\<in>set (mailbox_of g node_id). \<forall>r\<in>set t.
        fst (snd r) \<in> dom (cost_in (table_of g node_id)))"
  then obtain nd where nd: "map_of g node_id = Some nd"
    using in_keys_obtain[of node_id g] by blast
  from h have "\<forall>r\<in>set (concat (mailbox_of g node_id)).
                 fst (snd r) \<in> fst ` set (dict_of_table (table_of g node_id))"
    by (auto simp: dom_cost_in)
  from relax_rows_known[OF this, of node_id False] obtain d' ch' where
    "relax_rows node_id (concat (mailbox_of g node_id))
        (dict_of_table (table_of g node_id), False) = Inr (d', ch')"
    by blast
  then have "relax_tables node_id (updatedInit nd) (dict_of_table (initTable nd), False) = Inr (d', ch')"
    using nd by (simp add: relax_tables_concat table_of_def mailbox_of_def)
  then show "\<exists>g' t' changed. updateDV g node_id = Inr (g', t', changed)"
    using nd by (simp add: updateDV_def update_node_def)
qed

lemma mailbox_example_sent_1:
  "mailbox_of example_sent ''1'' =
     [[(''2'', ''1'', Fin 3), (''2'', ''2'', Fin 0), (''2'', ''3'', Fin 1)],
      [(''3'', ''1'', Fin 10), (''3'', ''2'', Fin 1), (''3'', ''3'', Fin 0)]]"
  by (simp add: example_sent_def example_graph_def example_nodes_def with_tables_def with_mail_def
        mailbox_of_def)

lemma keys_example_sent: "keys example_sent = [''1'', ''2'', ''3'']"
  by (simp add: example_sent_def example_graph_def example_nodes_def with_tables_def with_mail_def
        keys_def)

text \<open>
  Claim C1, amended, on the example of the specification: the first update of node 1
  returns, and its flag is true because the rule adopts at least one candidate.
\<close>

theorem updateDV_follows_rule_witness:
  "updateDV example_sent ''1'' =
     Inr (example_sent_1, [(''1'', ''1'', Fin 0), (''1'', ''2'', Fin 3), (''1'', ''3'', Fin 4)], True) \<and>
   0 < snd (spec_relax (spec_candidate_other ''1'') (concat (mailbox_of example_sent ''1''))
              (cost_in (table_of example_sent ''1''), 0)) \<and>
   fst (spec_relax (spec_candidate_other ''1'') (concat (mailbox_of example_sent ''1''))
              (cost_in (table_of example_sent ''1''), 0)) ''3'' = Some (Fin 4) \<and>
   ''1'' \<in> set (keys example_sent) \<and>
   map (\<lambda>r. fst (snd r)) (concat (mailbox_of example_sent ''1'')) =
     [''1'', ''2'', ''3'', ''1'', ''2'', ''3''] \<and>
   dom (cost_in (table_of example_sent ''1'')) = {''1'', ''2'', ''3''} \<and>
   (\<exists>g' t' changed. updateDV example_sent ''1'' = Inr (g', t', changed))"
proof -
  note rule1 = conjunct1[OF updateDV_follows_rule[of example_sent "''1''"], rule_format,
                         OF updateDV_example]
  have a: "0 < snd (spec_relax (spec_candidate_other ''1'') (concat (mailbox_of example_sent ''1''))
              (cost_in (table_of example_sent ''1''), 0))"
    using rule1 by simp
  have c: "cost_in [(''1'', ''1'', Fin 0), (''1'', ''2'', Fin 3), (''1'', ''3'', Fin 4)] =
           fst (spec_relax (spec_candidate_other ''1'') (concat (mailbox_of example_sent ''1''))
              (cost_in (table_of example_sent ''1''), 0))"
    using rule1 by (rule conjunct1)
  have b: "fst (spec_relax (spec_candidate_other ''1'') (concat (mailbox_of example_sent ''1''))
              (cost_in (table_of example_sent ''1''), 0)) ''3'' = Some (Fin 4)"
    unfolding c[symmetric] by (simp add: cost_in_def dict_of_table_def)
  have k: "''1'' \<in> set (keys example_sent)"
    by (simp add: keys_example_sent)
  have d1: "map (\<lambda>r. fst (snd r)) (concat (mailbox_of example_sent ''1'')) =
     [''1'', ''2'', ''3'', ''1'', ''2'', ''3'']"
    by (simp add: mailbox_example_sent_1)
  have d2: "dom (cost_in (table_of example_sent ''1'')) = {''1'', ''2'', ''3''}"
    by (simp add: table_example_sent_1 dom_cost_in dict_of_table_def)
  have d: "\<forall>t\<in>set (mailbox_of example_sent ''1''). \<forall>r\<in>set t.
        fst (snd r) \<in> dom (cost_in (table_of example_sent ''1''))"
    unfolding d2 by (simp add: mailbox_example_sent_1)
  have e: "\<exists>g' t' changed. updateDV example_sent ''1'' = Inr (g', t', changed)"
    by (rule mp[OF conjunct2[OF updateDV_follows_rule]]) (intro conjI k d)
  show ?thesis by (intro conjI updateDV_example a b k d1 d2 e)
qed

subsection \<open>Reading a table as a dict\<close>

lemma fold_update_map_of:
  "map_of (fold (\<lambda>r d. case r of (_, dst, c) \<Rightarrow> AList.update dst c d) t acc) k =
     (case map_of (rev (map snd t)) k of Some c \<Rightarrow> Some c | None \<Rightarrow> map_of acc k)"
proof (induction t arbitrary: acc)
  case Nil then show ?case by simp
next
  case (Cons r t)
  obtain s dst c where r: "r = (s, dst, c)" by (cases r)
  show ?case
    by (simp add: r Cons.IH AList.update_conv' map_add_def split: option.splits)
qed

lemma cost_in_rev: "cost_in t k = map_of (rev (map snd t)) k"
  by (simp add: cost_in_def dict_of_table_def fold_update_map_of split: option.splits)

lemma cost_in_Nil [simp]: "cost_in [] k = None"
  by (simp add: cost_in_rev)


lemma cost_in_Cons:
  "cost_in (r # t) k =
     (case cost_in t k of Some c \<Rightarrow> Some c
      | None \<Rightarrow> if fst (snd r) = k then Some (snd (snd r)) else None)"
  by (cases r) (simp add: cost_in_rev map_add_def split: option.splits)

lemma cost_in_SomeD: "cost_in t k = Some c \<Longrightarrow> \<exists>s. (s, k, c) \<in> set t"
proof (induction t)
  case Nil then show ?case by simp
next
  case (Cons r t)
  then show ?case
    by (cases r) (auto simp: cost_in_Cons split: option.splits if_splits)
qed


subsection \<open>The initial tables\<close>

lemma edges_of_append_row [simp]: "edges_of (append_row s d g) = edges_of g"
  by (simp add: append_row_def edges_of_map_entry)

lemma keys_append_row [simp]: "keys (append_row s d g) = keys g"
  by (simp add: append_row_def)

lemma mailbox_of_append_row [simp]: "mailbox_of (append_row s d g) n = mailbox_of g n"
  by (simp add: append_row_def mailbox_of_map_entry) (simp add: mailbox_of_def split: option.splits)

lemma table_of_append_row:
  "table_of (append_row s d g) n =
     (if n = s \<and> s \<in> set (keys g) then table_of g n @ [(s, d, calculate_cost g s d)]
      else table_of g n)"
proof (cases "map_of g s")
  case None
  then have "s \<notin> set (keys g)" using map_of_keys[of g s] by simp
  with None show ?thesis
    by (simp add: append_row_def table_of_map_entry) (simp add: table_of_def)
next
  case (Some nd)
  then have "s \<in> set (keys g)" using map_of_keys[of g s] by simp
  with Some show ?thesis
    by (simp add: append_row_def table_of_map_entry) (simp add: table_of_def)
qed

lemma fold_append_row:
  "edges_of (fold (append_row s) ks g) = edges_of g \<and>
   keys (fold (append_row s) ks g) = keys g \<and>
   (\<forall>n. mailbox_of (fold (append_row s) ks g) n = mailbox_of g n) \<and>
   (\<forall>n. table_of (fold (append_row s) ks g) n =
      (if n = s \<and> s \<in> set (keys g)
       then table_of g n @ map (\<lambda>d. (s, d, calculate_cost g s d)) ks
       else table_of g n))"
proof (induction ks arbitrary: g)
  case Nil then show ?case by simp
next
  case (Cons d ks)
  have c: "calculate_cost (append_row s d g) = calculate_cost g"
    by (rule calculate_cost_cong) simp
  show ?case
    by (simp add: Cons.IH[of "append_row s d g"] c table_of_append_row)
qed

lemma fold_fold_append_row:
  assumes "distinct ss"
  shows "edges_of (fold (\<lambda>s g'. fold (append_row s) ks g') ss g) = edges_of g \<and>
   keys (fold (\<lambda>s g'. fold (append_row s) ks g') ss g) = keys g \<and>
   (\<forall>n. mailbox_of (fold (\<lambda>s g'. fold (append_row s) ks g') ss g) n = mailbox_of g n) \<and>
   (\<forall>n. table_of (fold (\<lambda>s g'. fold (append_row s) ks g') ss g) n =
      (if n \<in> set ss \<and> n \<in> set (keys g)
       then table_of g n @ map (\<lambda>d. (n, d, calculate_cost g n d)) ks
       else table_of g n))"
  using assms
proof (induction ss arbitrary: g)
  case Nil then show ?case by simp
next
  case (Cons s ss)
  let ?g1 = "fold (append_row s) ks g"
  note f = fold_append_row[of s ks g]
  from f have e: "edges_of ?g1 = edges_of g" and k: "keys ?g1 = keys g" by simp_all
  have c: "calculate_cost ?g1 = calculate_cost g"
    by (rule calculate_cost_cong) (rule e)
  from Cons.prems have d: "distinct ss" and ns: "s \<notin> set ss" by simp_all
  note ih = Cons.IH[OF d, of ?g1]
  show ?case
    using ns by (simp add: ih f c)
qed

lemma initDVtable_tables:
  assumes "dict_keys_ok g"
  shows "edges_of (initDVtable g) = edges_of g \<and>
         keys (initDVtable g) = keys g \<and>
         (\<forall>n. mailbox_of (initDVtable g) n = mailbox_of g n) \<and>
         (\<forall>n. table_of (initDVtable g) n =
            (if n \<in> set (keys g)
             then table_of g n @ map (\<lambda>d. (n, d, calculate_cost g n d)) (keys g)
             else table_of g n))"
  using fold_fold_append_row[of "keys g" "keys g" g] assms
  by (simp add: initDVtable_def dict_keys_ok_def Let_def)

lemma find_filter_hd:
  "find P xs = (case filter P xs of [] \<Rightarrow> None | x # _ \<Rightarrow> Some x)"
  by (induction xs) auto

lemma calculate_cost_spec: "calculate_cost g n d = spec_cost g n d"
  by (simp add: calculate_cost_def spec_cost_def direct_edges_def zero_cost_def find_filter_hd
           split: option.splits list.splits)

text \<open>
  Claim C6. On a graph as the loader builds it (each name once as a key, the node's
  table still empty), \<open>initDVtable\<close> gives node n exactly the rows (n, d, cost), one
  for every key d of the graph in key order, where the cost is 0 for d = n, the
  weight of the direct edge from n to d when there is one, and infinity otherwise;
  keys, edges and mailboxes are unchanged.
\<close>

theorem initDVtable_rows:
  assumes "dict_keys_ok g" and "n \<in> set (keys g)" and "table_of g n = []"
  shows "table_of (initDVtable g) n = map (\<lambda>d. (n, d, spec_cost g n d)) (keys g) \<and>
         distinct (map (\<lambda>r. fst (snd r)) (table_of (initDVtable g) n)) \<and>
         set (map (\<lambda>r. fst (snd r)) (table_of (initDVtable g) n)) = set (keys g) \<and>
         keys (initDVtable g) = keys g \<and>
         edges_of (initDVtable g) = edges_of g"
proof -
  note i = initDVtable_tables[OF assms(1)]
  have c: "calculate_cost g = spec_cost g"
    by (intro ext) (rule calculate_cost_spec)
  from i assms(2,3) have t: "table_of (initDVtable g) n = map (\<lambda>d. (n, d, spec_cost g n d)) (keys g)"
    by (simp add: c)
  have m: "map (\<lambda>r. fst (snd r)) (map (\<lambda>d. (n, d, spec_cost g n d)) (keys g)) = keys g"
    by (simp add: comp_def)
  from assms(1) have d: "distinct (keys g)" by (simp add: dict_keys_ok_def)
  show ?thesis
    unfolding t m using d i by simp
qed

lemma example_nodes_keys: "keys example_nodes = [''1'', ''2'', ''3'']"
  by (simp add: example_nodes_def keys_def)

text \<open>
  Claim C6 on the example of the specification: the initial table of node 3 on the
  graph built from the three lines of the topology.
\<close>

theorem initDVtable_rows_witness:
  "dict_keys_ok example_nodes \<and> ''3'' \<in> set (keys example_nodes) \<and>
   table_of example_nodes ''3'' = [] \<and>
   build_graph example_lines = example_nodes \<and>
   table_of (initDVtable example_nodes) ''3'' =
     map (\<lambda>d. (''3'', d, spec_cost example_nodes ''3'' d)) (keys example_nodes) \<and>
   map (\<lambda>d. (''3'', d, spec_cost example_nodes ''3'' d)) (keys example_nodes) =
     [(''3'', ''1'', Fin 10), (''3'', ''2'', Fin 1), (''3'', ''3'', Fin 0)]"
proof -
  have a: "dict_keys_ok example_nodes"
    by (simp add: dict_keys_ok_def example_nodes_keys)
  have b: "''3'' \<in> set (keys example_nodes)"
    by (simp add: example_nodes_keys)
  have c: "table_of example_nodes ''3'' = []"
    by (simp add: example_nodes_def table_of_def)
  have t: "table_of (initDVtable example_nodes) ''3'' =
     map (\<lambda>d. (''3'', d, spec_cost example_nodes ''3'' d)) (keys example_nodes)"
    using initDVtable_rows[OF a b c] by (rule conjunct1)
  have v: "map (\<lambda>d. (''3'', d, spec_cost example_nodes ''3'' d)) (keys example_nodes) =
     [(''3'', ''1'', Fin 10), (''3'', ''2'', Fin 1), (''3'', ''3'', Fin 0)]"
    by (simp add: example_nodes_keys spec_cost_def direct_edges_def) (simp add: example_nodes_def)
  show ?thesis by (intro conjI a b c build_example t v)
qed

subsection \<open>The cost of a node to itself\<close>










subsection \<open>What a send does\<close>

lemma fold_send_to:
  "fold (send_to g s) ds net =
     net @ map (\<lambda>d. (d, table_of g s)) (filter (transmits g s) ds)"
  by (induction ds arbitrary: net) (simp_all add: send_to_def clientSide_def)

lemma fold_fold_send_to:
  "fold (\<lambda>s net'. fold (send_to g s) ds net') ss net =
     net @ concat (map (\<lambda>s. map (\<lambda>d. (d, table_of g s)) (filter (transmits g s) ds)) ss)"
  by (induction ss arbitrary: net) (simp_all add: fold_send_to)

lemma sendDVtoNeighbor_pairs:
  "sendDVtoNeighbor g net = net @ map (\<lambda>(s, d). (d, table_of g s)) (send_pairs g)"
  by (simp add: sendDVtoNeighbor_def Let_def fold_fold_send_to send_pairs_def map_concat
        comp_def)

lemma queue_of_append [simp]: "queue_of (net @ net') n = queue_of net n @ queue_of net' n"
  by (simp add: queue_of_def)

lemma queue_of_Nil [simp]: "queue_of [] n = []"
  by (simp add: queue_of_def)

lemma queue_of_Cons:
  "queue_of (m # net) n = (if fst m = n then snd m # queue_of net n else queue_of net n)"
  by (simp add: queue_of_def)

lemma queue_of_one_sender:
  assumes "distinct ds"
  shows "queue_of (map (\<lambda>d. (d, t)) (filter P ds)) n = (if n \<in> set ds \<and> P n then [t] else [])"
  using assms by (induction ds) (auto simp: queue_of_Cons)

lemma queue_of_senders:
  assumes "distinct ds"
  shows "queue_of (concat (map (\<lambda>s. map (\<lambda>d. (d, T s)) (filter (P s) ds)) ss)) n =
           (if n \<in> set ds then map T (filter (\<lambda>s. P s n) ss) else [])"
  by (induction ss) (simp_all add: queue_of_one_sender[OF assms])

lemma queue_of_send:
  assumes "dict_keys_ok g"
  shows "queue_of (sendDVtoNeighbor g net) n =
           queue_of net n @ (if n \<in> set (keys g) then sent_to g n else [])"
proof -
  from assms have d: "distinct (keys g)" by (simp add: dict_keys_ok_def)
  show ?thesis
    by (simp add: sendDVtoNeighbor_def Let_def fold_fold_send_to queue_of_senders[OF d]
          sent_to_def)
qed

lemma dict_keys_ok_cong: "keys g' = keys g \<Longrightarrow> dict_keys_ok g' = dict_keys_ok g"
  by (simp add: dict_keys_ok_def)

lemma length_keys: "length (keys g) = length g"
  by (simp add: keys_def)

lemma table_of_cong: "(\<forall>n. table_of g' n = table_of g n) \<Longrightarrow> table_of g' = table_of g"
  by (intro ext) simp

subsection \<open>What a listener does\<close>

lemma receive_props:
  "keys (receive n t g) = keys g \<and> edges_of (receive n t g) = edges_of g \<and>
   table_of (receive n t g) = table_of g \<and>
   (\<forall>m. mailbox_of (receive n t g) m =
      (if m = n \<and> n \<in> set (keys g) then mailbox_of g m @ [t] else mailbox_of g m))"
proof -
  have 1: "keys (receive n t g) = keys g" by (simp add: receive_def)
  have 2: "edges_of (receive n t g) = edges_of g" by (simp add: receive_def edges_of_map_entry)
  have 3: "table_of (receive n t g) = table_of g"
    by (intro ext) (simp add: receive_def table_of_def AList.map_of_map_entry split: option.splits)
  have 4: "\<forall>m. mailbox_of (receive n t g) m =
      (if m = n \<and> n \<in> set (keys g) then mailbox_of g m @ [t] else mailbox_of g m)"
  proof (cases "map_of g n")
    case None
    then have "n \<notin> set (keys g)" using map_of_keys[of g n] by simp
    with None show ?thesis
      by (simp add: receive_def mailbox_of_map_entry) (simp add: mailbox_of_def)
  next
    case (Some nd)
    then have "n \<in> set (keys g)" using map_of_keys[of g n] by simp
    with Some show ?thesis
      by (simp add: receive_def mailbox_of_map_entry) (simp add: mailbox_of_def)
  qed
  show ?thesis by (intro conjI 1 2 3 4)
qed

lemma take_message_None:
  "take_message n net = None \<longleftrightarrow> queue_of net n = []"
  by (induction net) (auto simp: queue_of_Cons)

lemma take_message_Some:
  "take_message n net = Some (t, net') \<Longrightarrow>
     queue_of net n = t # queue_of net' n \<and>
     (\<forall>m. m \<noteq> n \<longrightarrow> queue_of net' m = queue_of net m) \<and>
     set net' \<subseteq> set net"
proof (induction net arbitrary: net')
  case Nil then show ?case by simp
next
  case (Cons a net)
  show ?case
  proof (cases "fst a = n")
    case True
    with Cons.prems show ?thesis by (auto simp: queue_of_Cons)
  next
    case False
    with Cons.prems obtain net1 where
      t: "take_message n net = Some (t, net1)" and n': "net' = a # net1"
      by (auto split: prod.splits)
    from Cons.IH[OF t] False n' show ?thesis by (auto simp: queue_of_Cons)
  qed
qed

lemma serverSide_step:
  assumes "take_message n net = Some (t, net1)"
    and "g1 = (case f of Arrives \<Rightarrow> receive n t g | Lost \<Rightarrow> g)"
  shows "keys g1 = keys g \<and> edges_of g1 = edges_of g \<and> table_of g1 = table_of g \<and>
     (\<forall>m. mailbox_of g1 m =
        (if m = n \<and> n \<in> set (keys g) then mailbox_of g m @ arrived [f] (queue_of net n)
         else mailbox_of g m)) \<and>
     (\<forall>m. queue_of net1 m = (if m = n then drop 1 (queue_of net n) else queue_of net m)) \<and>
     set net1 \<subseteq> set net"
proof -
  note tm = take_message_Some[OF assms(1)]
  note rp = receive_props[of n t g]
  from tm have q: "queue_of net n = t # queue_of net1 n" by blast
  from tm have 5: "\<forall>m. queue_of net1 m = (if m = n then drop 1 (queue_of net n) else queue_of net m)"
    by (simp add: q)
  from tm have 6: "set net1 \<subseteq> set net" by blast
  have 4: "\<forall>m. mailbox_of g1 m =
        (if m = n \<and> n \<in> set (keys g) then mailbox_of g m @ arrived [f] (queue_of net n)
         else mailbox_of g m)"
    unfolding q assms(2) using rp by (cases f) simp_all
  have 1: "keys g1 = keys g" "edges_of g1 = edges_of g" "table_of g1 = table_of g"
    unfolding assms(2) using rp by (cases f; simp)+
  show ?thesis by (intro conjI 1 4 5 6)
qed

lemma arrived_Nil [simp]: "arrived fs [] = []"
  by (cases fs) simp_all

lemma arrived_Cons:
  "arrived (f # fs) q = arrived [f] q @ arrived fs (drop 1 q)"
  by (cases q) (simp_all split: fate.splits)

lemma serverSide_props:
  "serverSide n fs (g, net) = (g', net') \<Longrightarrow>
     keys g' = keys g \<and> edges_of g' = edges_of g \<and> table_of g' = table_of g \<and>
     (\<forall>m. mailbox_of g' m =
        (if m = n \<and> n \<in> set (keys g) then mailbox_of g m @ arrived fs (queue_of net n)
         else mailbox_of g m)) \<and>
     (\<forall>m. queue_of net' m =
        (if m = n then drop (length fs) (queue_of net n) else queue_of net m)) \<and>
     set net' \<subseteq> set net"
proof (induction fs arbitrary: g net)
  case Nil then show ?case by simp
next
  case (Cons f fs)
  show ?case
  proof (cases "take_message n net")
    case None
    then have q: "queue_of net n = []" by (simp add: take_message_None)
    from Cons.prems None have "g' = g" "net' = net" by simp_all
    then show ?thesis by (simp add: q)
  next
    case (Some a)
    obtain t net1 where a: "a = (t, net1)" by (cases a)
    define g1 where "g1 = (case f of Arrives \<Rightarrow> receive n t g | Lost \<Rightarrow> g)"
    from Cons.prems Some a have s: "serverSide n fs (g1, net1) = (g', net')"
      by (simp add: g1_def)
    note ih = Cons.IH[OF s]
    note st = serverSide_step[OF Some[unfolded a] g1_def]
    from ih st have 1: "keys g' = keys g" by simp
    from ih st have 2: "edges_of g' = edges_of g" by simp
    from ih st have 3: "table_of g' = table_of g" by simp
    from st have k1: "keys g1 = keys g" by simp
    from st have q1: "queue_of net1 n = drop 1 (queue_of net n)" by simp
    have 4: "\<forall>m. mailbox_of g' m =
        (if m = n \<and> n \<in> set (keys g)
         then mailbox_of g m @ arrived (f # fs) (queue_of net n)
         else mailbox_of g m)"
    proof
      fix m
      from ih have a1: "mailbox_of g' m =
        (if m = n \<and> n \<in> set (keys g1) then mailbox_of g1 m @ arrived fs (queue_of net1 n)
         else mailbox_of g1 m)" by blast
      from st have a2: "mailbox_of g1 m =
        (if m = n \<and> n \<in> set (keys g) then mailbox_of g m @ arrived [f] (queue_of net n)
         else mailbox_of g m)" by blast
      show "mailbox_of g' m =
        (if m = n \<and> n \<in> set (keys g)
         then mailbox_of g m @ arrived (f # fs) (queue_of net n)
         else mailbox_of g m)"
        unfolding a1 a2 k1 q1 arrived_Cons[of f fs] by simp
    qed
    have 5: "\<forall>m. queue_of net' m =
        (if m = n then drop (length (f # fs)) (queue_of net n) else queue_of net m)"
    proof
      fix m
      from ih have a1: "queue_of net' m =
        (if m = n then drop (length fs) (queue_of net1 n) else queue_of net1 m)" by blast
      from st have a2: "queue_of net1 m =
        (if m = n then drop 1 (queue_of net n) else queue_of net m)" by blast
      show "queue_of net' m =
        (if m = n then drop (length (f # fs)) (queue_of net n) else queue_of net m)"
        unfolding a1 a2 q1 by simp
    qed
    from ih st have 6: "set net' \<subseteq> set net" by blast
    show ?thesis by (intro conjI 1 2 3 4 5 6)
  qed
qed

lemma arrived_all:
  "list_all (\<lambda>f. f = Arrives) fs \<Longrightarrow> length q \<le> length fs \<Longrightarrow> arrived fs q = q"
proof (induction fs q rule: arrived.induct)
  case (1 q) then show ?case by simp
next
  case (2 f fs) then show ?case by simp
next
  case (3 f fs t q) then show ?case by simp
qed

lemma set_arrived: "set (arrived fs q) \<subseteq> set q"
  by (induction fs q rule: arrived.induct) (auto split: fate.splits)

subsection \<open>The stepped loop\<close>

declare Breaks_loop.simps [simp del]

declare NoBreaks_loop.simps [simp del]

lemma send_example: "sendDVtoNeighbor example_graph [] = example_net"
  by (simp add: sendDVtoNeighbor_def example_net_def example_graph_def example_nodes_def
        with_tables_def keys_def send_to_def clientSide_def transmits_def calculate_cost_def
        table_of_def zero_cost_def)

lemma update_all_example:
  "update_all (delivered 2) [''1'', ''2'', ''3''] ((example_graph, example_net), True) =
     Inr ((example_cycle1, []), False)"
  by (simp add: updateDV_def update_node_def example_sent_def example_graph_def example_nodes_def
        with_tables_def with_mail_def dict_of_table_def relax_row_def table_of_dict_def
        example_cycle1_def example_net_def delivered_def receive_def numeral_2_eq_2)

lemma cycle_example:
  "cycle (delivered 2) (example_graph, []) = Inr ((example_cycle1, []), False)"
  unfolding cycle_def prod.case send_example example_keys by (rule update_all_example)

lemma upper_N: "upper ''N'' \<noteq> ''Y''"
  by (simp add: upper_def upper_char_def)

lemma Breaks_loop_decline:
  assumes "cycles < max_cycles" and "cycle (sched cycles) st = Inr ((g', net'), False)"
    and "upper decision \<noteq> ''Y''"
  shows "Breaks_loop sched max_cycles cycles (decision # enter # rest) st =
           Inl (OsExit 1 g' (cycles + 1))"
  using assms by (subst Breaks_loop.simps) simp

lemma Breaks_loop_exit:
  "Breaks_loop sched max_cycles cycles stdin st = Inl (OsExit status g_exit k) \<Longrightarrow>
   status = 1 \<and> cycles < k \<and> k \<le> max_cycles \<and>
   (\<exists>net_exit. cycles_from sched cycles (k - cycles) st = Inr (g_exit, net_exit)) \<and>
   k - cycles < length stdin \<and>
   upper (stdin ! (k - cycles - 1)) \<noteq> ''Y'' \<and>
   (\<forall>i < k - cycles - 1. upper (stdin ! i) = ''Y'')"
proof (induction sched max_cycles cycles stdin st rule: Breaks_loop.induct)
  case (1 sched max_cycles cycles stdin st)
  note eq = "1.prems"
  from eq have lt: "cycles < max_cycles"
    by (subst (asm) Breaks_loop.simps) (simp split: if_splits)
  from eq lt obtain st' where cy: "cycle (sched cycles) st = Inr (st', False)"
    by (subst (asm) Breaks_loop.simps) (auto split: sum.splits if_splits)
  from eq lt cy obtain decision rest where inp: "stdin = decision # rest"
    by (subst (asm) Breaks_loop.simps) (auto split: list.splits)
  show ?case
  proof (cases "upper decision = ''Y''")
    case False
    from eq lt cy inp False obtain enter rest' where r: "rest = enter # rest'"
      by (subst (asm) Breaks_loop.simps) (auto split: list.splits)
    from eq lt cy inp False r have "status = 1" "g_exit = fst st'" "k = cycles + 1"
      by (subst (asm) Breaks_loop.simps, simp)+
    with lt cy inp False r show ?thesis by (cases st') simp
  next
    case True
    from eq lt cy inp True have more: "\<not> max_cycles \<le> cycles + 1"
      by (subst (asm) Breaks_loop.simps) (auto split: if_splits)
    from eq lt cy inp True more
    have rec: "Breaks_loop sched max_cycles (cycles + 1) rest st' = Inl (OsExit status g_exit k)"
      by (subst (asm) Breaks_loop.simps) simp
    have st: "(st', False) = (st', False)" by simp
    from "1.IH"[OF lt cy st _ inp _ more rec] True
    have ih: "status = 1 \<and> cycles + 1 < k \<and> k \<le> max_cycles \<and>
      (\<exists>net_exit. cycles_from sched (cycles + 1) (k - (cycles + 1)) st' = Inr (g_exit, net_exit)) \<and>
      k - (cycles + 1) < length rest \<and>
      upper (rest ! (k - (cycles + 1) - 1)) \<noteq> ''Y'' \<and>
      (\<forall>i < k - (cycles + 1) - 1. upper (rest ! i) = ''Y'')"
      by simp
    then have kc: "k - cycles = Suc (k - (cycles + 1))" by arith
    from ih obtain net_exit where
      cf: "cycles_from sched (Suc cycles) (k - (cycles + 1)) st' = Inr (g_exit, net_exit)"
      by auto
    have "cycles_from sched cycles (k - cycles) st = Inr (g_exit, net_exit)"
      unfolding kc using cy cf by simp
    then have a: "\<exists>net_exit. cycles_from sched cycles (k - cycles) st = Inr (g_exit, net_exit)" ..
    have b: "k - cycles < length stdin"
      using ih inp by (simp add: kc)
    from ih have pos: "0 < k - (cycles + 1)" by arith
    have c: "upper (stdin ! (k - cycles - 1)) \<noteq> ''Y''"
    proof -
      have "k - cycles - 1 = Suc (k - (cycles + 1) - 1)" using pos by arith
      then show ?thesis using ih inp by simp
    qed
    have d: "\<forall>i < k - cycles - 1. upper (stdin ! i) = ''Y''"
    proof (intro allI impI)
      fix i assume i: "i < k - cycles - 1"
      show "upper (stdin ! i) = ''Y''"
      proof (cases i)
        case 0
        then show ?thesis using inp True by simp
      next
        case (Suc j)
        with i have "j < k - (cycles + 1) - 1" by arith
        with ih have "upper (rest ! j) = ''Y''" by blast
        then show ?thesis using inp Suc by simp
      qed
    qed
    from ih a b c d show ?thesis by simp
  qed
qed

lemma length_example_graph: "length example_graph = 3"
  by (simp add: example_graph_def example_nodes_def with_tables_def)

lemma always_delivered: "always (delivered 2) c = delivered 2"
  by (simp add: always_def)

lemma Breaks_loop_example:
  "Breaks_loop (always (delivered 2)) (length example_graph * 50) 0 [''N'', '''']
     (example_graph, []) = Inl (OsExit 1 example_cycle1 1)"
  using Breaks_loop_decline[of 0 "length example_graph * 50" "always (delivered 2)"
          "(example_graph, [])" example_cycle1 "[]" "''N''" "''''" "[]"]
  by (simp add: length_example_graph cycle_example upper_N always_delivered)

lemma Breaks_example:
  "DVAlgorithmBreaks (always (delivered 2)) (example_graph, []) [''N'', ''''] =
     Inl (OsExit 1 example_cycle1 1)"
  unfolding DVAlgorithmBreaks_def fst_conv by (rule Breaks_loop_example)

lemma cycles_from_example:
  "cycles_from (always (delivered 2)) 0 1 (example_graph, []) = Inr (example_cycle1, [])"
  by (simp add: always_delivered cycle_example)

text \<open>
  Claim C3 as stated fails: on the example of the specification, with every
  advertisement arriving in time, the first cycle changes tables, and with the answer
  N (and one more line for the prompt that follows) the stepped loop ends in
  \<open>os._exit(1)\<close>, the end of the hosting process.
\<close>

theorem DVAlgorithmBreaks_exit_counterexample:
  "cycle (delivered 2) (example_graph, []) = Inr ((example_cycle1, []), False) \<and>
   DVAlgorithmBreaks (always (delivered 2)) (example_graph, []) [''N'', ''''] =
     Inl (OsExit 1 example_cycle1 1)"
  by (intro conjI cycle_example Breaks_example)

text \<open>
  Claim C3, amended. In the stepped loop, when the answer to the question after a
  cycle in which some node changed is not Y (in either case), the loop reads one more
  line and then ends the hosting process itself with exit status 1; no further cycle
  runs, so the graph at that moment is the graph at the end of that cycle. Conversely
  a run that ends by this exit did so with status 1 after k cycles, with k between 1
  and 50 times the number of nodes, its graph is the graph after exactly those k
  cycles, the first k - 1 answers were Y and the k-th was not. Both hold for every
  state of the graph and of the messages in flight, and whatever the listeners do
  with the advertisements in each cycle.
\<close>

theorem DVAlgorithmBreaks_decline_exits:
  "(cycles < max_cycles \<and> cycle (sched cycles) st = Inr ((g', net'), False) \<and>
    upper decision \<noteq> ''Y'' \<longrightarrow>
      Breaks_loop sched max_cycles cycles (decision # enter # rest) st =
        Inl (OsExit 1 g' (cycles + 1))) \<and>
   (DVAlgorithmBreaks sched0 (g0, net0) stdin = Inl (OsExit status g_exit k) \<longrightarrow>
      status = 1 \<and> 0 < k \<and> k \<le> length g0 * 50 \<and>
      (\<exists>net_exit. cycles_from sched0 0 k (g0, net0) = Inr (g_exit, net_exit)) \<and>
      k < length stdin \<and>
      upper (stdin ! (k - 1)) \<noteq> ''Y'' \<and>
      (\<forall>i < k - 1. upper (stdin ! i) = ''Y''))"
proof (rule conjI; rule impI)
  assume "cycles < max_cycles \<and> cycle (sched cycles) st = Inr ((g', net'), False) \<and>
    upper decision \<noteq> ''Y''"
  then show "Breaks_loop sched max_cycles cycles (decision # enter # rest) st =
        Inl (OsExit 1 g' (cycles + 1))"
    using Breaks_loop_decline by blast
next
  assume "DVAlgorithmBreaks sched0 (g0, net0) stdin = Inl (OsExit status g_exit k)"
  then have "Breaks_loop sched0 (length g0 * 50) 0 stdin (g0, net0) =
               Inl (OsExit status g_exit k)"
    by (simp add: DVAlgorithmBreaks_def)
  from Breaks_loop_exit[OF this]
  show "status = 1 \<and> 0 < k \<and> k \<le> length g0 * 50 \<and>
      (\<exists>net_exit. cycles_from sched0 0 k (g0, net0) = Inr (g_exit, net_exit)) \<and>
      k < length stdin \<and>
      upper (stdin ! (k - 1)) \<noteq> ''Y'' \<and>
      (\<forall>i < k - 1. upper (stdin ! i) = ''Y'')"
    by simp
qed

text \<open>
  Claim C3, amended, on the example of the specification with the answer N after the
  first cycle.
\<close>

theorem DVAlgorithmBreaks_decline_exits_witness:
  "(0::nat) < 150 \<and>
   cycle (always (delivered 2) 0) (example_graph, []) = Inr ((example_cycle1, []), False) \<and>
   upper ''N'' \<noteq> ''Y'' \<and>
   Breaks_loop (always (delivered 2)) 150 0 [''N'', ''''] (example_graph, []) =
     Inl (OsExit 1 example_cycle1 (0 + 1)) \<and>
   DVAlgorithmBreaks (always (delivered 2)) (example_graph, []) [''N'', ''''] =
     Inl (OsExit 1 example_cycle1 1) \<and>
   cycles_from (always (delivered 2)) 0 1 (example_graph, []) = Inr (example_cycle1, [])"
proof -
  have a: "(0::nat) < 150" by simp
  have cy: "cycle (always (delivered 2) 0) (example_graph, []) =
              Inr ((example_cycle1, []), False)"
    unfolding always_delivered by (rule cycle_example)
  have b: "Breaks_loop (always (delivered 2)) 150 0 [''N'', ''''] (example_graph, []) =
             Inl (OsExit 1 example_cycle1 (0 + 1))"
    by (rule mp[OF conjunct1[OF DVAlgorithmBreaks_decline_exits[where cycles = 0
              and max_cycles = 150 and sched = "always (delivered 2)"
              and st = "(example_graph, [])" and g' = example_cycle1 and net' = "[]"
              and decision = "''N''" and enter = "''''" and rest = "[]"]]])
       (intro conjI a cy upper_N)
  show ?thesis by (intro conjI a cy upper_N b Breaks_example cycles_from_example)
qed

subsection \<open>Updates that change nothing\<close>

lemma relax_row_flag:
  "relax_row n r (d, ch) = Inr (d', ch') \<Longrightarrow> (ch \<longrightarrow> ch') \<and> (\<not> ch' \<longrightarrow> d' = d)"
  by (auto simp: relax_row_def Let_def split: prod.splits option.splits if_splits)

lemma relax_row_flag_irrelevant:
  "relax_row n r (d, ch) = Inr (d', False) \<Longrightarrow> relax_row n r (d, False) = Inr (d, False)"
  by (auto simp: relax_row_def Let_def split: prod.splits option.splits if_splits)

lemma relax_rows_flag:
  "relax_rows n rs (d, ch) = Inr (d', ch') \<Longrightarrow> ch \<longrightarrow> ch'"
proof (induction rs arbitrary: d ch)
  case Nil then show ?case by simp
next
  case (Cons r rs)
  from Cons.prems obtain d1 ch1 where
    s1: "relax_row n r (d, ch) = Inr (d1, ch1)" and
    s2: "relax_rows n rs (d1, ch1) = Inr (d', ch')"
    by (auto split: sum.splits)
  from relax_row_flag[OF s1] Cons.IH[OF s2] show ?case by blast
qed

lemma relax_rows_unchanged:
  "relax_rows n rs (d, False) = Inr (d', False) \<Longrightarrow> d' = d \<and> (\<forall>r\<in>set rs. inert n d r)"
proof (induction rs)
  case Nil then show ?case by simp
next
  case (Cons r rs)
  from Cons.prems obtain d1 ch1 where
    s1: "relax_row n r (d, False) = Inr (d1, ch1)" and
    s2: "relax_rows n rs (d1, ch1) = Inr (d', False)"
    by (auto split: sum.splits)
  from relax_rows_flag[OF s2] have c: "\<not> ch1" by blast
  with relax_row_flag[OF s1] have d1: "d1 = d" by blast
  from s1 c d1 have "inert n d r" by (simp add: inert_def)
  with Cons.IH s2 c d1 show ?case by simp
qed

lemma relax_rows_inert:
  "\<forall>r\<in>set rs. inert n d r \<Longrightarrow> relax_rows n rs (d, False) = Inr (d, False)"
  by (induction rs) (auto simp: inert_def)

lemma update_node_unchanged:
  assumes "update_node n tbl batch = Inr (t', False)"
  shows "t' = table_of_dict n (dict_of_table tbl) \<and>
         (\<forall>r\<in>set (concat batch). inert n (dict_of_table tbl) r)"
proof -
  from assms obtain dd where
    rel: "relax_tables n batch (dict_of_table tbl, False) = Inr (dd, False)" and
    t': "t' = table_of_dict n dd"
    by (rule update_node_result)
  from rel have "relax_rows n (concat batch) (dict_of_table tbl, False) = Inr (dd, False)"
    by (simp add: relax_tables_concat)
  from relax_rows_unchanged[OF this] t' show ?thesis by simp
qed

lemma update_node_inert:
  assumes "\<forall>r\<in>set (concat batch). inert n (dict_of_table tbl) r"
  shows "update_node n tbl batch = Inr (table_of_dict n (dict_of_table tbl), False)"
  using relax_rows_inert[OF assms]
  by (simp add: update_node_def relax_tables_concat)

lemma dict_of_rebuilt [simp]:
  "dict_of_table (table_of_dict n (dict_of_table t)) = dict_of_table t"
  by (simp add: dict_of_table_of_dict distinct_dict_of_table)

lemma set_dict_of_table:
  "(k, c) \<in> set (dict_of_table t) \<Longrightarrow> \<exists>s. (s, k, c) \<in> set t"
proof -
  assume "(k, c) \<in> set (dict_of_table t)"
  then have "map_of (dict_of_table t) k = Some c"
    by (simp add: distinct_dict_of_table)
  then have "cost_in t k = Some c" by (simp add: cost_in_def)
  then show ?thesis by (rule cost_in_SomeD)
qed

lemma rebuilt_rows_subset:
  assumes "\<forall>r\<in>set t. fst r = n"
  shows "set (table_of_dict n (dict_of_table t)) \<subseteq> set t"
proof
  fix r assume "r \<in> set (table_of_dict n (dict_of_table t))"
  then obtain k c where r: "r = (n, k, c)" and kc: "(k, c) \<in> set (dict_of_table t)"
    by (auto simp: table_of_dict_def)
  from set_dict_of_table[OF kc] obtain s where s: "(s, k, c) \<in> set t" ..
  with assms have "s = n" by auto
  with s r show "r \<in> set t" by simp
qed

subsection \<open>Updating every node\<close>

lemma updateDV_frame:
  assumes "updateDV g m = Inr (g', t', ch)"
  shows "keys g' = keys g \<and> edges_of g' = edges_of g \<and>
         (\<forall>n. mailbox_of g' n = mailbox_of g n) \<and>
         (\<forall>n. table_of g' n = (if n = m then t' else table_of g n))"
proof -
  note r = updateDV_result[OF assms]
  from r have g': "g' = AList.map_entry m (\<lambda>nd. nd\<lparr>initTable := t'\<rparr>) g" by blast
  from r have t: "table_of g' m = t'" by blast
  have "\<forall>n. table_of g' n = (if n = m then t' else table_of g n)"
    using t by (simp add: g' table_of_map_entry)
  then show ?thesis
    by (simp add: g' edges_of_map_entry mailbox_of_set_table)
qed

lemma update_all_step:
  assumes "update_all sched (m # ns) ((g, net), b) = Inr ((g', net'), b')"
  obtains ga neta g1 t1 ch1 where
    "serverSide m (sched m) (g, net) = (ga, neta)"
    "updateDV ga m = Inr (g1, t1, ch1)"
    "update_all sched ns ((g1, neta), if ch1 then False else b) = Inr ((g', net'), b')"
proof -
  obtain ga neta where s: "serverSide m (sched m) (g, net) = (ga, neta)"
    by (cases "serverSide m (sched m) (g, net)")
  from assms s obtain g1 t1 ch1 where
    u: "updateDV ga m = Inr (g1, t1, ch1)" and
    rest: "update_all sched ns ((g1, neta), if ch1 then False else b) = Inr ((g', net'), b')"
    by (auto split: sum.splits)
  from s u rest show ?thesis by (rule that)
qed

lemma update_all_result:
  assumes "distinct ns" and "update_all sched ns ((g, net), b) = Inr ((g', net'), b')"
  shows "keys g' = keys g \<and> edges_of g' = edges_of g \<and>
         (\<forall>n. mailbox_of g' n =
            (if n \<in> set ns \<and> n \<in> set (keys g)
             then mailbox_of g n @ arrived (sched n) (queue_of net n) else mailbox_of g n)) \<and>
         (\<forall>n. queue_of net' n =
            (if n \<in> set ns then drop (length (sched n)) (queue_of net n) else queue_of net n)) \<and>
         (\<forall>n. n \<notin> set ns \<longrightarrow> table_of g' n = table_of g n) \<and>
         (\<forall>n\<in>set ns. \<exists>ch. update_node n (table_of g n) (mailbox_of g' n) = Inr (table_of g' n, ch)
                         \<and> (b' \<longrightarrow> \<not> ch)) \<and>
         (b' \<longrightarrow> b)"
  using assms
proof (induction ns arbitrary: g net b)
  case Nil then show ?case by simp
next
  case (Cons m ns)
  from Cons.prems(2) obtain ga neta g1 t1 ch1 where
    s: "serverSide m (sched m) (g, net) = (ga, neta)" and
    u: "updateDV ga m = Inr (g1, t1, ch1)" and
    rest: "update_all sched ns ((g1, neta), if ch1 then False else b) = Inr ((g', net'), b')"
    by (rule update_all_step)
  from Cons.prems(1) have d: "distinct ns" and m: "m \<notin> set ns" by simp_all
  note sp = serverSide_props[OF s]
  note f = updateDV_frame[OF u]
  note r = updateDV_result[OF u]
  note ih = Cons.IH[OF d rest]
  from sp have ka: "keys ga = keys g" and ea: "edges_of ga = edges_of g"
    and ta: "table_of ga = table_of g" by simp_all
  from sp have ma: "\<And>n. mailbox_of ga n =
        (if n = m \<and> m \<in> set (keys g) then mailbox_of g n @ arrived (sched m) (queue_of net m)
         else mailbox_of g n)" by blast
  from sp have qa: "\<And>n. queue_of neta n =
        (if n = m then drop (length (sched m)) (queue_of net m) else queue_of net n)" by blast
  from f have k1: "keys g1 = keys ga" and e1: "edges_of g1 = edges_of ga"
    and m1: "\<And>n. mailbox_of g1 n = mailbox_of ga n"
    and t1: "\<And>n. table_of g1 n = (if n = m then t1 else table_of ga n)" by simp_all
  from ih have k': "keys g' = keys g1" and e': "edges_of g' = edges_of g1" by simp_all
  from ih have m': "\<And>n. mailbox_of g' n =
            (if n \<in> set ns \<and> n \<in> set (keys g1)
             then mailbox_of g1 n @ arrived (sched n) (queue_of neta n) else mailbox_of g1 n)"
    by blast
  from ih have q': "\<And>n. queue_of net' n =
            (if n \<in> set ns then drop (length (sched n)) (queue_of neta n) else queue_of neta n)"
    by blast
  from ih have t': "\<And>n. n \<notin> set ns \<Longrightarrow> table_of g' n = table_of g1 n" by blast
  from ih have fl: "b' \<longrightarrow> (if ch1 then False else b)" by blast
  have 1: "keys g' = keys g" by (simp add: k' k1 ka)
  have 2: "edges_of g' = edges_of g" by (simp add: e' e1 ea)
  have 3: "\<forall>n. mailbox_of g' n =
            (if n \<in> set (m # ns) \<and> n \<in> set (keys g)
             then mailbox_of g n @ arrived (sched n) (queue_of net n) else mailbox_of g n)"
    using m by (auto simp: m' m1 ma qa k1 ka)
  have 4: "\<forall>n. queue_of net' n =
            (if n \<in> set (m # ns) then drop (length (sched n)) (queue_of net n)
             else queue_of net n)"
    using m by (auto simp: q' qa)
  have 5: "\<forall>n. n \<notin> set (m # ns) \<longrightarrow> table_of g' n = table_of g n"
    by (simp add: t' t1 ta)
  have tm: "table_of g' m = t1" using m by (simp add: t' t1)
  have mm: "mailbox_of g' m = mailbox_of ga m" using m by (simp add: m' m1)
  have 6: "\<forall>n\<in>set (m # ns). \<exists>ch. update_node n (table_of g n) (mailbox_of g' n)
              = Inr (table_of g' n, ch) \<and> (b' \<longrightarrow> \<not> ch)"
  proof
    fix n assume n: "n \<in> set (m # ns)"
    show "\<exists>ch. update_node n (table_of g n) (mailbox_of g' n) = Inr (table_of g' n, ch)
               \<and> (b' \<longrightarrow> \<not> ch)"
    proof (cases "n = m")
      case True
      from r have "update_node m (table_of ga m) (mailbox_of ga m) = Inr (t1, ch1)" by blast
      then have "update_node m (table_of g m) (mailbox_of g' m) = Inr (table_of g' m, ch1)"
        by (simp add: ta tm mm)
      moreover from fl have "b' \<longrightarrow> \<not> ch1" by (auto split: if_splits)
      ultimately show ?thesis unfolding True by blast
    next
      case False
      with n have "n \<in> set ns" by simp
      with ih obtain ch where
        "update_node n (table_of g1 n) (mailbox_of g' n) = Inr (table_of g' n, ch)" and
        "b' \<longrightarrow> \<not> ch"
        by blast
      with False show ?thesis by (auto simp: t1 ta)
    qed
  qed
  from fl have 7: "b' \<longrightarrow> b" by (auto split: if_splits)
  show ?case by (intro conjI 1 2 3 4 5 6 7)
qed

lemma updateDV_intro:
  assumes "m \<in> set (keys g)"
    and "update_node m (table_of g m) (mailbox_of g m) = Inr (t', ch)"
  shows "updateDV g m = Inr (AList.map_entry m (\<lambda>nd. nd\<lparr>initTable := t'\<rparr>) g, t', ch)"
proof -
  from assms(1) obtain nd where nd: "map_of g m = Some nd" by (rule in_keys_obtain)
  with assms(2) show ?thesis
    by (simp add: updateDV_def table_of_def mailbox_of_def)
qed

lemma update_all_unchanged:
  assumes "distinct ns" and "set ns \<subseteq> set (keys g)"
    and "\<forall>n\<in>set ns. update_node n (table_of g n)
             (mailbox_of g n @ arrived (sched n) (queue_of net n)) = Inr (T n, False)"
  shows "\<exists>g' net'. update_all sched ns ((g, net), b) = Inr ((g', net'), b) \<and>
           (\<forall>n. table_of g' n = (if n \<in> set ns then T n else table_of g n))"
  using assms
proof (induction ns arbitrary: g net)
  case Nil then show ?case by simp
next
  case (Cons m ns)
  obtain ga neta where s: "serverSide m (sched m) (g, net) = (ga, neta)"
    by (cases "serverSide m (sched m) (g, net)")
  note sp = serverSide_props[OF s]
  from sp have ka: "keys ga = keys g" and ta: "table_of ga = table_of g" by simp_all
  from sp have ma: "\<And>n. mailbox_of ga n =
        (if n = m \<and> m \<in> set (keys g) then mailbox_of g n @ arrived (sched m) (queue_of net m)
         else mailbox_of g n)" by blast
  from sp have qa: "\<And>n. queue_of neta n =
        (if n = m then drop (length (sched m)) (queue_of net m) else queue_of net n)" by blast
  let ?g1 = "AList.map_entry m (\<lambda>nd. nd\<lparr>initTable := T m\<rparr>) ga"
  from Cons.prems have mk: "m \<in> set (keys g)"
    and um: "update_node m (table_of g m) (mailbox_of g m @ arrived (sched m) (queue_of net m))
               = Inr (T m, False)" by simp_all
  from mk have mka: "m \<in> set (keys ga)" by (simp add: ka)
  from um mk have uma: "update_node m (table_of ga m) (mailbox_of ga m) = Inr (T m, False)"
    by (simp add: ta ma)
  note u = updateDV_intro[OF mka uma]
  note f = updateDV_frame[OF u]
  from f have k1: "keys ?g1 = keys ga"
    and m1: "\<And>n. mailbox_of ?g1 n = mailbox_of ga n"
    and t1: "\<And>n. table_of ?g1 n = (if n = m then T m else table_of ga n)" by simp_all
  from Cons.prems(1) have d: "distinct ns" and m: "m \<notin> set ns" by simp_all
  from Cons.prems(2) have sub: "set ns \<subseteq> set (keys ?g1)" by (simp add: ka)
  have un: "\<forall>n\<in>set ns. update_node n (table_of ?g1 n)
              (mailbox_of ?g1 n @ arrived (sched n) (queue_of neta n)) = Inr (T n, False)"
  proof
    fix n assume n: "n \<in> set ns"
    with m have nm: "n \<noteq> m" by auto
    from Cons.prems(3) n have
      "update_node n (table_of g n) (mailbox_of g n @ arrived (sched n) (queue_of net n))
         = Inr (T n, False)" by simp
    with nm show "update_node n (table_of ?g1 n)
              (mailbox_of ?g1 n @ arrived (sched n) (queue_of neta n)) = Inr (T n, False)"
      by (simp add: t1 m1 ma qa ta)
  qed
  from Cons.IH[OF d sub un] obtain g' net' where
    r: "update_all sched ns ((?g1, neta), b) = Inr ((g', net'), b)" and
    t: "\<forall>n. table_of g' n = (if n \<in> set ns then T n else table_of ?g1 n)"
    by blast
  have "update_all sched (m # ns) ((g, net), b) = Inr ((g', net'), b)"
    by (simp add: s u r)
  moreover have "\<forall>n. table_of g' n = (if n \<in> set (m # ns) then T n else table_of g n)"
    using t m by (auto simp: t1 ta)
  ultimately show ?case by blast
qed

lemma rows_namedD:
  "rows_named g \<Longrightarrow> s \<in> set (keys g) \<Longrightarrow> \<forall>r\<in>set (table_of g s). fst r = s"
  by (simp add: rows_named_def list_all_iff)

lemma in_concat_sent_to:
  "r \<in> set (concat (sent_to g n)) \<longleftrightarrow>
     (\<exists>s\<in>set (keys g). transmits g s n \<and> r \<in> set (table_of g s))"
  by (auto simp: sent_to_def)

lemma timelyD:
  assumes "timely sched (g, net)" and "dict_keys_ok g" and "n \<in> set (keys g)"
  shows "arrived (sched n) (queue_of (sendDVtoNeighbor g net) n) = queue_of net n @ sent_to g n"
    and "drop (length (sched n)) (queue_of (sendDVtoNeighbor g net) n) = []"
proof -
  from assms(1,3) have a: "list_all (\<lambda>f. f = Arrives) (sched n)"
    and l: "length (queue_of (sendDVtoNeighbor g net) n) \<le> length (sched n)"
    by (simp_all add: timely_def list_all_iff)
  from arrived_all[OF a l] assms(3)
  show "arrived (sched n) (queue_of (sendDVtoNeighbor g net) n) = queue_of net n @ sent_to g n"
    by (simp add: queue_of_send[OF assms(2)])
  from l show "drop (length (sched n)) (queue_of (sendDVtoNeighbor g net) n) = []" by simp
qed

lemma cycle_stable_unfold:
  assumes "dict_keys_ok g" and "timely sched (g, net)"
    and "cycle sched (g, net) = Inr ((g1, net1), True)"
  shows "keys g1 = keys g \<and> edges_of g1 = edges_of g \<and>
         (\<forall>n. mailbox_of g1 n =
            (if n \<in> set (keys g) then mailbox_of g n @ queue_of net n @ sent_to g n
             else mailbox_of g n)) \<and>
         (\<forall>n\<in>set (keys g). queue_of net1 n = []) \<and>
         (\<forall>n\<in>set (keys g).
            table_of g1 n = table_of_dict n (dict_of_table (table_of g n)) \<and>
            (\<forall>r\<in>set (concat (mailbox_of g1 n)).
               inert n (dict_of_table (table_of g n)) r))"
proof -
  let ?ns = "sendDVtoNeighbor g net"
  from assms(1) have d: "distinct (keys g)" by (simp add: dict_keys_ok_def)
  from assms(3) have ua: "update_all sched (keys g) ((g, ?ns), True) = Inr ((g1, net1), True)"
    by (simp add: cycle_def)
  note r = update_all_result[OF d ua]
  from r have 1: "keys g1 = keys g" and 2: "edges_of g1 = edges_of g" by simp_all
  from r have mb: "\<And>n. mailbox_of g1 n =
            (if n \<in> set (keys g) \<and> n \<in> set (keys g)
             then mailbox_of g n @ arrived (sched n) (queue_of ?ns n) else mailbox_of g n)"
    by blast
  from r have qq: "\<And>n. queue_of net1 n =
            (if n \<in> set (keys g) then drop (length (sched n)) (queue_of ?ns n)
             else queue_of ?ns n)"
    by blast
  have 3: "\<forall>n. mailbox_of g1 n =
            (if n \<in> set (keys g) then mailbox_of g n @ queue_of net n @ sent_to g n
             else mailbox_of g n)"
  proof
    fix n
    show "mailbox_of g1 n =
            (if n \<in> set (keys g) then mailbox_of g n @ queue_of net n @ sent_to g n
             else mailbox_of g n)"
      using timelyD(1)[OF assms(2,1), of n] by (simp add: mb)
  qed
  have 4: "\<forall>n\<in>set (keys g). queue_of net1 n = []"
  proof
    fix n assume "n \<in> set (keys g)"
    then show "queue_of net1 n = []"
      using timelyD(2)[OF assms(2,1), of n] by (simp add: qq)
  qed
  have 5: "\<forall>n\<in>set (keys g).
            table_of g1 n = table_of_dict n (dict_of_table (table_of g n)) \<and>
            (\<forall>r\<in>set (concat (mailbox_of g1 n)).
               inert n (dict_of_table (table_of g n)) r)"
  proof
    fix n assume n: "n \<in> set (keys g)"
    with r obtain ch where
      "update_node n (table_of g n) (mailbox_of g1 n) = Inr (table_of g1 n, ch)" and "\<not> ch"
      by blast
    then have "update_node n (table_of g n) (mailbox_of g1 n) = Inr (table_of g1 n, False)"
      by simp
    from update_node_unchanged[OF this]
    show "table_of g1 n = table_of_dict n (dict_of_table (table_of g n)) \<and>
            (\<forall>r\<in>set (concat (mailbox_of g1 n)).
               inert n (dict_of_table (table_of g n)) r)" .
  qed
  show ?thesis by (intro conjI 1 2 3 4 5)
qed

text \<open>
  Claim C8, amended. Let a full cycle (\<open>sendDVtoNeighbor\<close>, then \<open>updateDV\<close> at every
  node) return with \<open>stable\<close> still true, from a graph whose keys are distinct and
  whose table rows carry the name of their node, and let every advertisement in
  flight or sent in that cycle have reached its receiver's mailbox before the
  receiver updated. Then one more cycle from the resulting state also returns with
  \<open>stable\<close> true and leaves every node's table as it was before that cycle, whatever
  the listeners do with the advertisements of this second cycle: each mailbox holds
  everything it held before, the advertisements of the first cycle, and those of the
  second that arrived.
\<close>

theorem stable_cycle_repeats:
  assumes "dict_keys_ok g" and "rows_named g" and "timely sched1 (g, net)"
    and "cycle sched1 (g, net) = Inr ((g1, net1), True)"
  shows "\<exists>g2 net2. cycle sched2 (g1, net1) = Inr ((g2, net2), True) \<and>
           table_of g2 = table_of g1 \<and> keys g2 = keys g \<and>
           (\<forall>n. mailbox_of g2 n =
              (if n \<in> set (keys g)
               then mailbox_of g n @ queue_of net n @ sent_to g n @
                    arrived (sched2 n) (sent_to g1 n)
               else mailbox_of g n))"
proof -
  note c1 = cycle_stable_unfold[OF assms(1,3,4)]
  from c1 have k1: "keys g1 = keys g" and e1: "edges_of g1 = edges_of g" by simp_all
  from c1 have mb1: "\<And>n. mailbox_of g1 n =
            (if n \<in> set (keys g) then mailbox_of g n @ queue_of net n @ sent_to g n
             else mailbox_of g n)" by blast
  from c1 have q1: "\<And>n. n \<in> set (keys g) \<Longrightarrow> queue_of net1 n = []" by blast
  from assms(1) k1 have ok1: "dict_keys_ok g1" by (simp add: dict_keys_ok_def)
  from assms(1) have d: "distinct (keys g)" by (simp add: dict_keys_ok_def)
  have tr: "transmits g1 = transmits g" by (rule transmits_cong) (rule e1)
  let ?ns = "sendDVtoNeighbor g1 net1"
  have qs: "\<And>n. n \<in> set (keys g) \<Longrightarrow> queue_of ?ns n = sent_to g1 n"
    by (simp add: queue_of_send[OF ok1] k1 q1)
  have un: "\<forall>n\<in>set (keys g).
              update_node n (table_of g1 n)
                (mailbox_of g1 n @ arrived (sched2 n) (queue_of ?ns n)) = Inr (table_of g1 n, False)"
  proof
    fix n assume n: "n \<in> set (keys g)"
    let ?D = "dict_of_table (table_of g n)"
    from c1 n have t1: "table_of g1 n = table_of_dict n ?D"
      and old: "\<forall>r\<in>set (concat (mailbox_of g1 n)). inert n ?D r"
      by blast+
    have D1: "dict_of_table (table_of g1 n) = ?D" by (simp add: t1)
    have new: "\<forall>r\<in>set (concat (arrived (sched2 n) (sent_to g1 n))). inert n ?D r"
    proof
      fix r assume "r \<in> set (concat (arrived (sched2 n) (sent_to g1 n)))"
      then have "r \<in> set (concat (sent_to g1 n))"
        using set_arrived[of "sched2 n" "sent_to g1 n"] by auto
      then have "\<exists>s\<in>set (keys g1). transmits g1 s n \<and> r \<in> set (table_of g1 s)"
        by (simp only: in_concat_sent_to)
      then obtain s where s: "s \<in> set (keys g)" and ts: "transmits g s n"
        and rs: "r \<in> set (table_of g1 s)"
        unfolding k1 tr by blast
      from c1 s have "table_of g1 s = table_of_dict s (dict_of_table (table_of g s))" by blast
      with rs rebuilt_rows_subset[OF rows_namedD[OF assms(2) s]]
      have "r \<in> set (table_of g s)" by auto
      with s ts have "\<exists>s\<in>set (keys g). transmits g s n \<and> r \<in> set (table_of g s)"
        by blast
      then have "r \<in> set (concat (sent_to g n))"
        by (simp only: in_concat_sent_to)
      then have rin: "r \<in> set (concat (mailbox_of g1 n))"
        using n by (simp add: mb1)
      from old rin show "inert n ?D r" by (rule bspec)
    qed
    from old new have "\<forall>r\<in>set (concat (mailbox_of g1 n @ arrived (sched2 n) (sent_to g1 n))).
        inert n (dict_of_table (table_of g1 n)) r"
      by (auto simp: D1)
    from update_node_inert[OF this] show
      "update_node n (table_of g1 n)
         (mailbox_of g1 n @ arrived (sched2 n) (queue_of ?ns n)) = Inr (table_of g1 n, False)"
      by (simp add: D1 t1 qs[OF n])
  qed
  have sub: "set (keys g) \<subseteq> set (keys g1)" by (simp add: k1)
  from update_all_unchanged[OF d sub un, of True] obtain g2 net2 where
    ua: "update_all sched2 (keys g) ((g1, ?ns), True) = Inr ((g2, net2), True)" and
    t2: "\<forall>n. table_of g2 n = (if n \<in> set (keys g) then table_of g1 n else table_of g1 n)"
    by blast
  from ua have cy: "cycle sched2 (g1, net1) = Inr ((g2, net2), True)"
    by (simp add: cycle_def k1)
  from t2 have tt: "table_of g2 = table_of g1"
    by (intro ext) simp
  note r2 = update_all_result[OF d ua]
  from r2 have k2: "keys g2 = keys g" by (simp add: k1)
  from r2 have mb2: "\<And>n. mailbox_of g2 n =
            (if n \<in> set (keys g) \<and> n \<in> set (keys g1)
             then mailbox_of g1 n @ arrived (sched2 n) (queue_of ?ns n) else mailbox_of g1 n)"
    by blast
  have m2: "\<forall>n. mailbox_of g2 n =
              (if n \<in> set (keys g)
               then mailbox_of g n @ queue_of net n @ sent_to g n @
                    arrived (sched2 n) (sent_to g1 n)
               else mailbox_of g n)"
  proof
    fix n
    show "mailbox_of g2 n =
              (if n \<in> set (keys g)
               then mailbox_of g n @ queue_of net n @ sent_to g n @
                    arrived (sched2 n) (sent_to g1 n)
               else mailbox_of g n)"
    proof (cases "n \<in> set (keys g)")
      case True
      then show ?thesis by (simp add: mb2 k1 mb1 qs[OF True])
    next
      case False
      then show ?thesis by (simp add: mb2 mb1)
    qed
  qed
  from cy tt k2 m2 show ?thesis by blast
qed

subsection \<open>A stable cycle and the cycle after it\<close>

lemma update_all_idle:
  "update_all idle [''1'', ''2'', ''3''] ((example_graph, example_net), True) =
     Inr ((example_graph, example_net), True)"
  by (simp add: updateDV_def update_node_def example_graph_def example_nodes_def
        with_tables_def dict_of_table_def relax_row_def table_of_dict_def idle_def)

lemma cycle_idle:
  "cycle idle (example_graph, []) = Inr ((example_graph, example_net), True)"
  unfolding cycle_def prod.case send_example example_keys by (rule update_all_idle)

lemma send_example_again:
  "sendDVtoNeighbor example_graph example_net = example_net @ example_net"
  unfolding sendDVtoNeighbor_pairs[of example_graph example_net]
    send_example[unfolded sendDVtoNeighbor_pairs[of example_graph "[]"], simplified]
  by simp

lemma update_all_late:
  "update_all (delivered 2) [''1'', ''2'', ''3'']
     ((example_graph, example_net @ example_net), True) =
     Inr ((example_cycle1, example_net), False)"
  by (simp add: updateDV_def update_node_def example_sent_def example_graph_def example_nodes_def
        with_tables_def with_mail_def dict_of_table_def relax_row_def table_of_dict_def
        example_cycle1_def example_net_def delivered_def receive_def numeral_2_eq_2)

lemma cycle_late:
  "cycle (delivered 2) (example_graph, example_net) = Inr ((example_cycle1, example_net), False)"
  unfolding cycle_def prod.case send_example_again example_keys by (rule update_all_late)

lemma tables_example_cycle1:
  "table_of example_cycle1 ''1'' = [(''1'', ''1'', Fin 0), (''1'', ''2'', Fin 3), (''1'', ''3'', Fin 4)]"
  "table_of example_cycle1 ''2'' = [(''2'', ''1'', Fin 3), (''2'', ''2'', Fin 0), (''2'', ''3'', Fin 1)]"
  "table_of example_cycle1 ''3'' = [(''3'', ''1'', Fin 4), (''3'', ''2'', Fin 1), (''3'', ''3'', Fin 0)]"
  by (simp_all add: example_cycle1_def example_sent_def example_graph_def example_nodes_def
        with_tables_def with_mail_def table_of_def)

lemma table_example_graph_1:
  "table_of example_graph ''1'' =
     [(''1'', ''1'', Fin 0), (''1'', ''2'', Fin 3), (''1'', ''3'', Fin 10)]"
  by (simp add: example_graph_def example_nodes_def with_tables_def table_of_def)

text \<open>
  Claim C8 as stated fails. On the example of the specification, when no
  advertisement of the first cycle has reached a mailbox by the time the nodes
  update, that cycle returns with \<open>stable\<close> true and every table as it was. The
  advertisements are still in flight; when they arrive during the next cycle, that
  cycle changes tables: node 1 lowers its cost to node 3 from 10 to 4.
\<close>

theorem stable_cycle_late_counterexample:
  "cycle idle (example_graph, []) = Inr ((example_graph, example_net), True) \<and>
   cycle (delivered 2) (example_graph, example_net) =
     Inr ((example_cycle1, example_net), False) \<and>
   table_of example_graph ''1'' =
     [(''1'', ''1'', Fin 0), (''1'', ''2'', Fin 3), (''1'', ''3'', Fin 10)] \<and>
   table_of example_cycle1 ''1'' =
     [(''1'', ''1'', Fin 0), (''1'', ''2'', Fin 3), (''1'', ''3'', Fin 4)]"
  by (intro conjI cycle_idle cycle_late table_example_graph_1 tables_example_cycle1(1))

lemma keys_example_cycle1: "keys example_cycle1 = [''1'', ''2'', ''3'']"
  by (simp add: example_cycle1_def example_sent_def example_graph_def example_nodes_def
        with_tables_def with_mail_def keys_def)

lemma send_example_cycle1: "sendDVtoNeighbor example_cycle1 [] = example_net2"
  by (simp add: sendDVtoNeighbor_def example_net2_def example_cycle1_def example_sent_def
        example_graph_def example_nodes_def
        with_tables_def with_mail_def keys_def send_to_def clientSide_def transmits_def
        calculate_cost_def table_of_def zero_cost_def)

lemma update_all_example_cycle2:
  "update_all (delivered 2) [''1'', ''2'', ''3''] ((example_cycle1, example_net2), True) =
     Inr ((example_cycle2, []), True)"
  by (simp add: updateDV_def update_node_def example_cycle2_def example_cycle1_def
        example_sent_def example_graph_def example_nodes_def example_net2_def
        with_tables_def with_mail_def dict_of_table_def relax_row_def table_of_dict_def
        delivered_def receive_def numeral_2_eq_2)

lemma cycle_example_cycle1:
  "cycle (delivered 2) (example_cycle1, []) = Inr ((example_cycle2, []), True)"
  unfolding cycle_def prod.case send_example_cycle1 keys_example_cycle1
  by (rule update_all_example_cycle2)

lemma timely_example_cycle1: "timely (delivered 2) (example_cycle1, [])"
  unfolding timely_def prod.case send_example_cycle1 keys_example_cycle1
  by (simp add: delivered_def queue_of_def example_net2_def numeral_2_eq_2)

text \<open>
  Claim C8, amended, on the example of the specification: its second cycle is stable
  with every advertisement arrived in time, so a third cycle is stable too and keeps
  the tables, here when none of its advertisements arrives.
\<close>

theorem stable_cycle_repeats_witness:
  "dict_keys_ok example_cycle1 \<and> rows_named example_cycle1 \<and>
   timely (delivered 2) (example_cycle1, []) \<and>
   cycle (delivered 2) (example_cycle1, []) = Inr ((example_cycle2, []), True) \<and>
   (\<exists>g2 net2. cycle idle (example_cycle2, []) = Inr ((g2, net2), True) \<and>
      table_of g2 = table_of example_cycle2)"
proof -
  have a: "dict_keys_ok example_cycle1"
    by (simp add: dict_keys_ok_def keys_example_cycle1)
  have b: "rows_named example_cycle1"
    by (simp add: rows_named_def keys_example_cycle1 tables_example_cycle1)
  from stable_cycle_repeats[OF a b timely_example_cycle1 cycle_example_cycle1, of idle]
  obtain g2 net2 where "cycle idle (example_cycle2, []) = Inr ((g2, net2), True)"
    and "table_of g2 = table_of example_cycle2"
    by (elim exE conjE)
  then have c: "\<exists>g2 net2. cycle idle (example_cycle2, []) = Inr ((g2, net2), True) \<and>
      table_of g2 = table_of example_cycle2"
    by (intro exI[of _ g2] exI[of _ net2] conjI)
  show ?thesis by (intro conjI a b timely_example_cycle1 cycle_example_cycle1 c)
qed

subsection \<open>Cycles on closed graphs\<close>

lemma closed_graph_iff:
  "closed_graph g \<longleftrightarrow>
     dict_keys_ok g \<and>
     (\<forall>n\<in>set (keys g).
        (\<lambda>r. fst (snd r)) ` set (table_of g n) = set (keys g) \<and>
        (\<forall>t\<in>set (mailbox_of g n). \<forall>r\<in>set t. fst (snd r) \<in> set (keys g)))"
  by (simp add: closed_graph_def list_all_iff)

lemma dests_dict_of_table:
  "fst ` set (dict_of_table t) = (\<lambda>r. fst (snd r)) ` set t"
proof -
  have "cost_in t = map_of (rev (map snd t))"
    by (intro ext) (rule cost_in_rev)
  then have "dom (cost_in t) = fst ` set (rev (map snd t))"
    by (simp add: dom_map_of_conv_image_fst)
  then show ?thesis
    by (simp add: dom_cost_in image_image)
qed

lemma update_node_known:
  assumes "\<forall>t\<in>set batch. \<forall>r\<in>set t. fst (snd r) \<in> (\<lambda>r. fst (snd r)) ` set tbl"
  shows "\<exists>t' ch. update_node n tbl batch = Inr (t', ch) \<and>
           (\<lambda>r. fst (snd r)) ` set t' = (\<lambda>r. fst (snd r)) ` set tbl"
proof -
  from assms have "\<forall>r\<in>set (concat batch). fst (snd r) \<in> fst ` set (dict_of_table tbl)"
    by (auto simp: dests_dict_of_table)
  from relax_rows_known[OF this, of n False] obtain d' ch' where
    r: "relax_rows n (concat batch) (dict_of_table tbl, False) = Inr (d', ch')" by blast
  then have u: "update_node n tbl batch = Inr (table_of_dict n d', ch')"
    by (simp add: update_node_def relax_tables_concat)
  from relax_rows_keys[OF r] have "fst ` set d' = fst ` set (dict_of_table tbl)"
    by (metis list.set_map)
  moreover have "(\<lambda>r. fst (snd r)) ` set (table_of_dict n d') = fst ` set d'"
    using table_of_dict_names[of n d'] by (metis list.set_map)
  ultimately have "(\<lambda>r. fst (snd r)) ` set (table_of_dict n d') = (\<lambda>r. fst (snd r)) ` set tbl"
    by (simp add: dests_dict_of_table)
  with u show ?thesis by blast
qed

lemma closed_state_iff:
  "closed_state (g, net) \<longleftrightarrow>
     closed_graph g \<and> (\<forall>m\<in>set net. \<forall>r\<in>set (snd m). fst (snd r) \<in> set (keys g))"
  by (simp add: closed_state_def list_all_iff)

lemma in_send_pairs:
  "(s, d) \<in> set (send_pairs g) \<Longrightarrow> s \<in> set (keys g)"
  by (auto simp: send_pairs_def)

lemma closed_graph_cong:
  assumes "closed_graph g" and "keys g' = keys g" and "table_of g' = table_of g"
    and "\<forall>n\<in>set (keys g). \<forall>t\<in>set (mailbox_of g' n). \<forall>r\<in>set t. fst (snd r) \<in> set (keys g)"
  shows "closed_graph g'"
  using assms unfolding closed_graph_iff by (simp add: dict_keys_ok_def)

lemma closed_send:
  assumes "closed_state (g, net)"
  shows "closed_state (g, sendDVtoNeighbor g net)"
proof -
  from assms have cg: "closed_graph g"
    and cn: "\<forall>m\<in>set net. \<forall>r\<in>set (snd m). fst (snd r) \<in> set (keys g)"
    by (simp_all add: closed_state_iff)
  from cg have c: "\<forall>n\<in>set (keys g). (\<lambda>r. fst (snd r)) ` set (table_of g n) = set (keys g)"
    by (simp add: closed_graph_iff)
  have "\<forall>m\<in>set (map (\<lambda>(s, d). (d, table_of g s)) (send_pairs g)).
          \<forall>r\<in>set (snd m). fst (snd r) \<in> set (keys g)"
  proof (intro ballI)
    fix m r assume m: "m \<in> set (map (\<lambda>(s, d). (d, table_of g s)) (send_pairs g))"
      and r: "r \<in> set (snd m)"
    from m obtain s d where sd: "(s, d) \<in> set (send_pairs g)" and me: "m = (d, table_of g s)"
      by auto
    from in_send_pairs[OF sd] c have "(\<lambda>r. fst (snd r)) ` set (table_of g s) = set (keys g)"
      by blast
    moreover from r me have "r \<in> set (table_of g s)" by simp
    ultimately show "fst (snd r) \<in> set (keys g)" by blast
  qed
  with cn have "\<forall>m\<in>set (sendDVtoNeighbor g net). \<forall>r\<in>set (snd m). fst (snd r) \<in> set (keys g)"
    unfolding sendDVtoNeighbor_pairs by (simp add: ball_Un)
  with cg show ?thesis by (simp add: closed_state_iff)
qed

lemma set_queue_of: "set (queue_of net n) \<subseteq> snd ` set net"
  by (auto simp: queue_of_def)

lemma closed_listen:
  assumes "closed_state (g, net)" and "serverSide n fs (g, net) = (g', net')"
  shows "closed_state (g', net') \<and> keys g' = keys g"
proof -
  from assms(1) have cg: "closed_graph g"
    and cn: "\<forall>m\<in>set net. \<forall>r\<in>set (snd m). fst (snd r) \<in> set (keys g)"
    by (simp_all add: closed_state_iff)
  note sp = serverSide_props[OF assms(2)]
  from sp have k: "keys g' = keys g" and t: "table_of g' = table_of g"
    and sub: "set net' \<subseteq> set net" by simp_all
  from sp have mb: "\<And>m. mailbox_of g' m =
        (if m = n \<and> n \<in> set (keys g) then mailbox_of g m @ arrived fs (queue_of net n)
         else mailbox_of g m)" by blast
  from cg have c: "\<forall>n\<in>set (keys g). \<forall>t\<in>set (mailbox_of g n). \<forall>r\<in>set t.
                     fst (snd r) \<in> set (keys g)"
    by (simp add: closed_graph_iff)
  have a: "\<forall>t\<in>set (arrived fs (queue_of net n)). \<forall>r\<in>set t. fst (snd r) \<in> set (keys g)"
  proof (intro ballI)
    fix t r assume "t \<in> set (arrived fs (queue_of net n))" and r: "r \<in> set t"
    then have "t \<in> snd ` set net"
      using set_arrived[of fs "queue_of net n"] set_queue_of[of net n] by blast
    then obtain m where "m \<in> set net" and "t = snd m" by blast
    with cn r show "fst (snd r) \<in> set (keys g)" by blast
  qed
  have "\<forall>m\<in>set (keys g). \<forall>t\<in>set (mailbox_of g' m). \<forall>r\<in>set t. fst (snd r) \<in> set (keys g)"
  proof
    fix m assume m: "m \<in> set (keys g)"
    show "\<forall>t\<in>set (mailbox_of g' m). \<forall>r\<in>set t. fst (snd r) \<in> set (keys g)"
    proof (cases "m = n")
      case True
      with m c a show ?thesis by (simp add: mb ball_Un)
    next
      case False
      with m c show ?thesis by (simp add: mb)
    qed
  qed
  from closed_graph_cong[OF cg k t this] have cg': "closed_graph g'" .
  from cn sub have "\<forall>m\<in>set net'. \<forall>r\<in>set (snd m). fst (snd r) \<in> set (keys g')"
    unfolding k by blast
  with cg' k show ?thesis by (simp add: closed_state_iff)
qed

lemma closed_update_all:
  assumes "closed_state (g, net)" and "set ns \<subseteq> set (keys g)"
  shows "\<exists>g' net' b'. update_all sched ns ((g, net), b) = Inr ((g', net'), b') \<and>
           closed_state (g', net') \<and> keys g' = keys g"
  using assms
proof (induction ns arbitrary: g net b)
  case Nil then show ?case by simp
next
  case (Cons m ns)
  obtain ga neta where s: "serverSide m (sched m) (g, net) = (ga, neta)"
    by (cases "serverSide m (sched m) (g, net)")
  from closed_listen[OF Cons.prems(1) s] have ca: "closed_state (ga, neta)"
    and ka: "keys ga = keys g" by simp_all
  from Cons.prems(2) have mk: "m \<in> set (keys ga)" by (simp add: ka)
  from ca have cg: "closed_graph ga"
    and cn: "\<forall>m\<in>set neta. \<forall>r\<in>set (snd m). fst (snd r) \<in> set (keys ga)"
    by (simp_all add: closed_state_iff)
  from cg have ok: "dict_keys_ok ga" and c: "\<forall>n\<in>set (keys ga).
        (\<lambda>r. fst (snd r)) ` set (table_of ga n) = set (keys ga) \<and>
        (\<forall>t\<in>set (mailbox_of ga n). \<forall>r\<in>set t. fst (snd r) \<in> set (keys ga))"
    by (simp_all add: closed_graph_iff)
  from c mk have "\<forall>t\<in>set (mailbox_of ga m). \<forall>r\<in>set t.
                    fst (snd r) \<in> (\<lambda>r. fst (snd r)) ` set (table_of ga m)"
    by simp
  from update_node_known[OF this, of m] obtain t' ch where
    u: "update_node m (table_of ga m) (mailbox_of ga m) = Inr (t', ch)" and
    d: "(\<lambda>r. fst (snd r)) ` set t' = (\<lambda>r. fst (snd r)) ` set (table_of ga m)"
    by blast
  let ?g1 = "AList.map_entry m (\<lambda>nd. nd\<lparr>initTable := t'\<rparr>) ga"
  note ud = updateDV_intro[OF mk u]
  note f = updateDV_frame[OF ud]
  have cg1: "closed_graph ?g1"
    unfolding closed_graph_iff using f ok c d mk
    by (simp add: dict_keys_ok_def)
  from f have k1: "keys ?g1 = keys ga" by simp
  from cg1 cn have c1: "closed_state (?g1, neta)"
    by (simp add: closed_state_iff k1)
  from Cons.prems(2) have sub: "set ns \<subseteq> set (keys ?g1)" by (simp add: k1 ka)
  from Cons.IH[OF c1 sub, of "if ch then False else b"] obtain g' net' b' where
    r: "update_all sched ns ((?g1, neta), if ch then False else b) = Inr ((g', net'), b')"
    and c': "closed_state (g', net')" and k': "keys g' = keys ?g1" by blast
  have "update_all sched (m # ns) ((g, net), b) = Inr ((g', net'), b')"
    by (simp add: s ud r)
  with c' k' k1 ka show ?case by auto
qed

lemma closed_cycle:
  assumes "closed_state st"
  shows "\<exists>st' b. cycle sched st = Inr (st', b) \<and> closed_state st' \<and>
           length (fst st') = length (fst st)"
proof -
  obtain g net where st: "st = (g, net)" by (cases st)
  note cs = closed_send[OF assms[unfolded st]]
  from closed_update_all[OF cs, of "keys g" sched True] obtain g' net' b' where
    u: "update_all sched (keys g) ((g, sendDVtoNeighbor g net), True) = Inr ((g', net'), b')"
    and c: "closed_state (g', net')" and k: "keys g' = keys g"
    by auto
  from k have "length (keys g') = length (keys g)" by simp
  then have "length g' = length g" by (simp add: length_keys)
  with u c show ?thesis by (simp add: cycle_def st)
qed

lemma cycle_empty: "cycle sched ([], []) = Inr (([], []), True)"
  by (simp add: cycle_def sendDVtoNeighbor_def keys_def)

subsection \<open>The two loops on closed states\<close>

lemma NoBreaks_loop_closed:
  "closed_state st \<Longrightarrow>
   \<exists>r. NoBreaks_loop sched mx c st = Inr r \<and> c < cycles_run r \<and>
       cycles_run r \<le> max (c + 1) mx \<and>
       cycles_from sched c (cycles_run r - c) st = Inr (graph_after r, network_after r) \<and>
       max_reported r = (\<not> stable_end r) \<and>
       (max_reported r \<longrightarrow> mx \<le> cycles_run r)"
proof (induction sched mx c st rule: NoBreaks_loop.induct)
  case (1 sched mx c st)
  from closed_cycle[OF "1.prems", of "sched c"] obtain st' b where
    cy: "cycle (sched c) st = Inr (st', b)" and cl: "closed_state st'" by blast
  show ?case
  proof (cases b)
    case True
    have "NoBreaks_loop sched mx c st =
            Inr \<lparr>graph_after = fst st', network_after = snd st', cycles_run = c + 1,
                 stable_end = True, max_reported = False\<rparr>"
      by (subst NoBreaks_loop.simps) (simp add: cy True)
    then show ?thesis by (simp add: cy)
  next
    case False
    show ?thesis
    proof (cases "mx \<le> c + 1")
      case True
      then have le: "mx \<le> Suc c" by simp
      have "NoBreaks_loop sched mx c st =
              Inr \<lparr>graph_after = fst st', network_after = snd st', cycles_run = c + 1,
                   stable_end = False, max_reported = True\<rparr>"
        by (subst NoBreaks_loop.simps) (simp add: cy \<open>\<not> b\<close> le)
      then show ?thesis using True by (simp add: cy)
    next
      case more: False
      then have nle: "\<not> mx \<le> Suc c" by simp
      have eq: "NoBreaks_loop sched mx c st = NoBreaks_loop sched mx (c + 1) st'"
        by (subst NoBreaks_loop.simps) (simp add: cy \<open>\<not> b\<close> nle)
      have "\<exists>r. NoBreaks_loop sched mx (c + 1) st' = Inr r \<and> c + 1 < cycles_run r \<and>
              cycles_run r \<le> max (c + 1 + 1) mx \<and>
              cycles_from sched (c + 1) (cycles_run r - (c + 1)) st' =
                Inr (graph_after r, network_after r) \<and>
              max_reported r = (\<not> stable_end r) \<and>
              (max_reported r \<longrightarrow> mx \<le> cycles_run r)"
        using "1.IH" cy \<open>\<not> b\<close> more cl by blast
      then obtain r where
        r: "NoBreaks_loop sched mx (c + 1) st' = Inr r" and lo: "c + 1 < cycles_run r" and
        hi: "cycles_run r \<le> max (c + 1 + 1) mx" and
        cf: "cycles_from sched (c + 1) (cycles_run r - (c + 1)) st' =
               Inr (graph_after r, network_after r)" and
        fl: "max_reported r = (\<not> stable_end r)" and
        mr: "max_reported r \<longrightarrow> mx \<le> cycles_run r"
        by blast
      from lo have k: "cycles_run r - c = Suc (cycles_run r - (c + 1))" by arith
      have cf': "cycles_from sched c (cycles_run r - c) st = Inr (graph_after r, network_after r)"
        using cf by (simp add: k cy)
      from hi more have hi': "cycles_run r \<le> max (c + 1) mx" by arith
      from lo have lo': "c < cycles_run r" by arith
      from r lo' hi' cf' fl mr show ?thesis
        unfolding eq by blast
    qed
  qed
qed

lemma Breaks_loop_closed:
  "closed_state st \<Longrightarrow> c \<le> mx \<Longrightarrow>
   (case Breaks_loop sched mx c inp st of
      Inr r \<Rightarrow> c \<le> cycles_run r \<and> cycles_run r \<le> mx \<and>
               cycles_from sched c (cycles_run r - c) st =
                 Inr (graph_after r, network_after r) \<and>
               (max_reported r \<longrightarrow> cycles_run r = mx \<and> \<not> stable_end r) \<and>
               (\<not> stable_end r \<and> c < mx \<longrightarrow> max_reported r)
    | Inl (OsExit status g_exit k) \<Rightarrow> status = 1 \<and> k \<le> mx
    | Inl (Raise e) \<Rightarrow> e = EOFError)"
proof (induction sched mx c inp st rule: Breaks_loop.induct)
  case (1 sched mx c inp st)
  show ?case
  proof (cases "c < mx")
    case False
    have "Breaks_loop sched mx c inp st =
            Inr \<lparr>graph_after = fst st, network_after = snd st, cycles_run = c,
                 stable_end = False, max_reported = False\<rparr>"
      by (subst Breaks_loop.simps) (simp add: False)
    then show ?thesis using "1.prems" False by simp
  next
    case lt: True
    from closed_cycle[OF "1.prems"(1), of "sched c"] obtain st' b where
      cy: "cycle (sched c) st = Inr (st', b)" and cl: "closed_state st'" by blast
    show ?thesis
    proof (cases b)
      case True
      have "Breaks_loop sched mx c inp st =
              Inr \<lparr>graph_after = fst st', network_after = snd st', cycles_run = c + 1,
                   stable_end = True, max_reported = False\<rparr>"
        by (subst Breaks_loop.simps) (simp add: lt cy True)
      then show ?thesis using lt by (simp add: cy)
    next
      case unstable: False
      show ?thesis
      proof (cases inp)
        case Nil
        have "Breaks_loop sched mx c inp st = Inl (Raise EOFError)"
          by (subst Breaks_loop.simps) (simp add: lt cy unstable Nil)
        then show ?thesis by simp
      next
        case (Cons decision rest)
        show ?thesis
        proof (cases "upper decision = ''Y''")
          case False
          show ?thesis
          proof (cases rest)
            case Nil
            have "Breaks_loop sched mx c inp st = Inl (Raise EOFError)"
              by (subst Breaks_loop.simps) (simp add: lt cy unstable Cons False Nil)
            then show ?thesis by simp
          next
            case (Cons enter rest')
            have "Breaks_loop sched mx c inp st = Inl (OsExit 1 (fst st') (c + 1))"
              by (subst Breaks_loop.simps)
                 (simp add: lt cy unstable \<open>inp = decision # rest\<close> False Cons)
            then show ?thesis using lt by simp
          qed
        next
          case yes: True
          show ?thesis
          proof (cases "mx \<le> c + 1")
            case True
            then have le1: "mx \<le> Suc c" by simp
            have "Breaks_loop sched mx c inp st =
                    Inr \<lparr>graph_after = fst st', network_after = snd st', cycles_run = c + 1,
                         stable_end = False, max_reported = True\<rparr>"
              by (subst Breaks_loop.simps) (simp add: lt cy unstable Cons yes le1)
            then show ?thesis using lt True by (simp add: cy)
          next
            case more: False
            then have nle: "\<not> mx \<le> Suc c" by simp
            have eq: "Breaks_loop sched mx c inp st = Breaks_loop sched mx (c + 1) rest st'"
              by (subst Breaks_loop.simps) (simp add: lt cy unstable Cons yes nle)
            from lt have le: "c + 1 \<le> mx" by simp
            from more have lt1: "c + 1 < mx" by simp
            have ih: "case Breaks_loop sched mx (c + 1) rest st' of
                Inr r \<Rightarrow> c + 1 \<le> cycles_run r \<and> cycles_run r \<le> mx \<and>
                   cycles_from sched (c + 1) (cycles_run r - (c + 1)) st' =
                     Inr (graph_after r, network_after r) \<and>
                   (max_reported r \<longrightarrow> cycles_run r = mx \<and> \<not> stable_end r) \<and>
                   (\<not> stable_end r \<and> c + 1 < mx \<longrightarrow> max_reported r)
              | Inl (OsExit status g_exit k) \<Rightarrow> status = 1 \<and> k \<le> mx
              | Inl (Raise e) \<Rightarrow> e = EOFError"
              using "1.IH" lt cy unstable Cons yes more cl le by blast
            show ?thesis
            proof (cases "Breaks_loop sched mx (c + 1) rest st'")
              case (Inl h)
              with ih show ?thesis unfolding eq by simp
            next
              case (Inr r)
              with ih have lo: "c + 1 \<le> cycles_run r" and hi: "cycles_run r \<le> mx" and
                cf: "cycles_from sched (c + 1) (cycles_run r - (c + 1)) st' =
                       Inr (graph_after r, network_after r)" and
                mr: "max_reported r \<longrightarrow> cycles_run r = mx \<and> \<not> stable_end r" and
                rm: "\<not> stable_end r \<and> c + 1 < mx \<longrightarrow> max_reported r"
                by simp_all
              from lo have k: "cycles_run r - c = Suc (cycles_run r - (c + 1))" by arith
              have "cycles_from sched c (cycles_run r - c) st =
                      Inr (graph_after r, network_after r)"
                using cf by (simp add: k cy)
              with lo hi mr rm lt1 Inr show ?thesis unfolding eq by simp
            qed
          qed
        qed
      qed
    qed
  qed
qed

lemma Breaks_loop_all_yes:
  "closed_state st \<Longrightarrow> list_all (\<lambda>l. upper l = ''Y'') inp \<Longrightarrow> mx - c \<le> length inp \<Longrightarrow>
   \<exists>r. Breaks_loop sched mx c inp st = Inr r"
proof (induction sched mx c inp st rule: Breaks_loop.induct)
  case (1 sched mx c inp st)
  show ?case
  proof (cases "c < mx")
    case False
    then show ?thesis by (subst Breaks_loop.simps) simp
  next
    case lt: True
    from closed_cycle[OF "1.prems"(1), of "sched c"] obtain st' b where
      cy: "cycle (sched c) st = Inr (st', b)" and cl: "closed_state st'" by blast
    show ?thesis
    proof (cases b)
      case True
      then show ?thesis by (subst Breaks_loop.simps) (simp add: lt cy)
    next
      case unstable: False
      from lt "1.prems"(3) obtain decision rest where inp: "inp = decision # rest"
        by (cases inp) auto
      from "1.prems"(2) inp have yes: "upper decision = ''Y''"
        and ys: "list_all (\<lambda>l. upper l = ''Y'') rest" by simp_all
      show ?thesis
      proof (cases "mx \<le> c + 1")
        case True
        then have le1: "mx \<le> Suc c" by simp
        show ?thesis
          by (subst Breaks_loop.simps) (simp add: lt cy unstable inp yes le1)
      next
        case more: False
        then have nle: "\<not> mx \<le> Suc c" by simp
        have eq: "Breaks_loop sched mx c inp st = Breaks_loop sched mx (c + 1) rest st'"
          by (subst Breaks_loop.simps) (simp add: lt cy unstable inp yes nle)
        from "1.prems"(3) inp have len: "mx - (c + 1) \<le> length rest" by simp
        have "\<exists>r. Breaks_loop sched mx (c + 1) rest st' = Inr r"
          using "1.IH" lt cy unstable inp yes more cl ys len by blast
        then show ?thesis unfolding eq .
      qed
    qed
  qed
qed

lemma NoBreaks_empty:
  "DVAlgorithmNoBreaks sched ([], []) =
     Inr \<lparr>graph_after = [], network_after = [], cycles_run = 1, stable_end = True,
          max_reported = False\<rparr>"
  unfolding DVAlgorithmNoBreaks_def
  by (subst NoBreaks_loop.simps) (simp add: cycle_empty)

lemma Breaks_drift:
  "DVAlgorithmBreaks (always idle) (drift_graph, []) (replicate 49 ''Y'' @ [''N'', '''']) =
     Inl (OsExit 1 drift_end 50)"
  by (simp add: DVAlgorithmBreaks_def drift_graph_def drift_end_def Breaks_loop.simps cycle_def
       sendDVtoNeighbor_def keys_def send_to_def transmits_def updateDV_def update_node_def
       dict_of_table_def relax_row_def table_of_dict_def upper_def upper_char_def
       numeral_eq_Suc always_def idle_def)

text \<open>
  Claim C5 as stated fails twice. On the empty graph the unattended loop runs one
  cycle, more than 0 times 50. And in the stepped loop the fiftieth cycle of a graph
  of one node that is still unstable is followed by the question to the user, whose
  answer N ends the process instead of the run.
\<close>

theorem convergence_bound_counterexample:
  "DVAlgorithmNoBreaks (always idle) ([], []) =
     Inr \<lparr>graph_after = [], network_after = [], cycles_run = 1, stable_end = True,
          max_reported = False\<rparr> \<and>
   length ([] :: graph) * 50 = 0 \<and>
   DVAlgorithmBreaks (always idle) (drift_graph, []) (replicate 49 ''Y'' @ [''N'', '''']) =
     Inl (OsExit 1 drift_end 50) \<and>
   length drift_graph * 50 = 50"
proof -
  have a: "length ([] :: graph) * 50 = 0" by simp
  have b: "length drift_graph * 50 = 50" by (simp add: drift_graph_def)
  show ?thesis by (intro conjI NoBreaks_empty a Breaks_drift b)
qed

text \<open>
  Claim C5, amended. On a closed state (a graph as \<open>initDVtable\<close> and the loops build
  it, with nothing in flight or with advertisements of such graphs in flight) both
  loops return without an exception from the update, whatever the listeners do with
  the advertisements in each cycle. The unattended loop runs at least one cycle and
  at most the larger of 1 and 50 times the number of nodes; it reports the maximum
  exactly when its last cycle was not stable, and then it ran 50 times the number of
  nodes cycles. The stepped loop runs at most 50 times the number of nodes cycles,
  whether it returns or ends the process after a declined question; the only
  exception it can raise is the end of the input; when it reports the maximum it ran
  50 times the number of nodes cycles and the last was not stable; when it returns
  from a graph with nodes after a cycle that was not stable it reports the maximum;
  and with an answer Y to every question it returns. In each case the state returned
  is the state after the cycles that were run.
\<close>

theorem convergence_loops_bounded:
  assumes "closed_state (g, net)"
  shows "(\<exists>r. DVAlgorithmNoBreaks sched (g, net) = Inr r \<and>
              1 \<le> cycles_run r \<and> cycles_run r \<le> max 1 (length g * 50) \<and>
              cycles_from sched 0 (cycles_run r) (g, net) =
                Inr (graph_after r, network_after r) \<and>
              max_reported r = (\<not> stable_end r) \<and>
              (max_reported r \<longrightarrow> cycles_run r = length g * 50)) \<and>
         (case DVAlgorithmBreaks sched (g, net) stdin of
            Inr r \<Rightarrow> cycles_run r \<le> length g * 50 \<and>
                     cycles_from sched 0 (cycles_run r) (g, net) =
                       Inr (graph_after r, network_after r) \<and>
                     (max_reported r \<longrightarrow> cycles_run r = length g * 50 \<and> \<not> stable_end r) \<and>
                     (\<not> stable_end r \<and> g \<noteq> [] \<longrightarrow> max_reported r)
          | Inl (OsExit status g_exit k) \<Rightarrow> status = 1 \<and> k \<le> length g * 50
          | Inl (Raise e) \<Rightarrow> e = EOFError) \<and>
         (list_all (\<lambda>l. upper l = ''Y'') stdin \<and> length g * 50 \<le> length stdin \<longrightarrow>
            (\<exists>r. DVAlgorithmBreaks sched (g, net) stdin = Inr r))"
proof (intro conjI)
  from NoBreaks_loop_closed[OF assms, of sched "length g * 50" 0] obtain r where
    r: "DVAlgorithmNoBreaks sched (g, net) = Inr r" and lo: "0 < cycles_run r" and
    hi: "cycles_run r \<le> max (0 + 1) (length g * 50)" and
    cf: "cycles_from sched 0 (cycles_run r - 0) (g, net) =
           Inr (graph_after r, network_after r)" and
    fl: "max_reported r = (\<not> stable_end r)" and
    mr: "max_reported r \<longrightarrow> length g * 50 \<le> cycles_run r"
    unfolding DVAlgorithmNoBreaks_def fst_conv by blast
  have eqm: "max_reported r \<longrightarrow> cycles_run r = length g * 50"
  proof (cases "g = []")
    case True
    from r True have "NoBreaks_loop sched 0 0 ([], net) = Inr r"
      by (simp add: DVAlgorithmNoBreaks_def)
    moreover have "cycle (sched 0) ([], net) = Inr (([], net), True)"
      by (simp add: cycle_def sendDVtoNeighbor_def keys_def)
    ultimately have "stable_end r"
      by (subst (asm) NoBreaks_loop.simps) auto
    with fl show ?thesis by simp
  next
    case False
    then have "1 \<le> length g * 50" by (cases g) simp_all
    with hi mr show ?thesis by auto
  qed
  from r lo hi cf fl eqm
  show "\<exists>r. DVAlgorithmNoBreaks sched (g, net) = Inr r \<and>
              1 \<le> cycles_run r \<and> cycles_run r \<le> max 1 (length g * 50) \<and>
              cycles_from sched 0 (cycles_run r) (g, net) =
                Inr (graph_after r, network_after r) \<and>
              max_reported r = (\<not> stable_end r) \<and>
              (max_reported r \<longrightarrow> cycles_run r = length g * 50)"
    by (intro exI[of _ r]) simp
next
  have pos: "g \<noteq> [] \<longleftrightarrow> 0 < length g * 50" by (cases g) simp_all
  from Breaks_loop_closed[OF assms, of 0 "length g * 50" sched stdin]
  show "case DVAlgorithmBreaks sched (g, net) stdin of
            Inr r \<Rightarrow> cycles_run r \<le> length g * 50 \<and>
                     cycles_from sched 0 (cycles_run r) (g, net) =
                       Inr (graph_after r, network_after r) \<and>
                     (max_reported r \<longrightarrow> cycles_run r = length g * 50 \<and> \<not> stable_end r) \<and>
                     (\<not> stable_end r \<and> g \<noteq> [] \<longrightarrow> max_reported r)
          | Inl (OsExit status g_exit k) \<Rightarrow> status = 1 \<and> k \<le> length g * 50
          | Inl (Raise e) \<Rightarrow> e = EOFError"
    unfolding DVAlgorithmBreaks_def fst_conv pos by (simp split: sum.splits halt.splits)
next
  show "list_all (\<lambda>l. upper l = ''Y'') stdin \<and> length g * 50 \<le> length stdin \<longrightarrow>
            (\<exists>r. DVAlgorithmBreaks sched (g, net) stdin = Inr r)"
    unfolding DVAlgorithmBreaks_def fst_conv
    using Breaks_loop_all_yes[OF assms, of stdin "length g * 50" 0 sched] by simp
qed

lemma tables_example_graph:
  "table_of example_graph ''1'' = [(''1'', ''1'', Fin 0), (''1'', ''2'', Fin 3), (''1'', ''3'', Fin 10)]"
  "table_of example_graph ''2'' = [(''2'', ''1'', Fin 3), (''2'', ''2'', Fin 0), (''2'', ''3'', Fin 1)]"
  "table_of example_graph ''3'' = [(''3'', ''1'', Fin 10), (''3'', ''2'', Fin 1), (''3'', ''3'', Fin 0)]"
  by (simp_all add: example_graph_def example_nodes_def with_tables_def table_of_def)

lemma mailboxes_example_graph:
  "mailbox_of example_graph ''1'' = []"
  "mailbox_of example_graph ''2'' = []"
  "mailbox_of example_graph ''3'' = []"
  by (simp_all add: example_graph_def example_nodes_def with_tables_def mailbox_of_def)

lemma closed_example_graph: "closed_graph example_graph"
  by (simp add: closed_graph_def dict_keys_ok_def example_keys tables_example_graph
        mailboxes_example_graph)

lemma closed_example_state: "closed_state (example_graph, [])"
  by (simp add: closed_state_def closed_example_graph)

text \<open>
  Claim C5, amended, on the example of the specification with every advertisement
  arriving in time: the unattended loop returns within 150 cycles, and so does the
  stepped loop when every answer is Y.
\<close>

theorem convergence_loops_bounded_witness:
  "closed_state (example_graph, []) \<and>
   (\<exists>r. DVAlgorithmNoBreaks (always (delivered 2)) (example_graph, []) = Inr r \<and>
        1 \<le> cycles_run r \<and> cycles_run r \<le> max 1 (length example_graph * 50)) \<and>
   list_all (\<lambda>l. upper l = ''Y'') (replicate 150 ''Y'') \<and>
   length example_graph * 50 \<le> length (replicate 150 ''Y'') \<and>
   (\<exists>r. DVAlgorithmBreaks (always (delivered 2)) (example_graph, []) (replicate 150 ''Y'')
          = Inr r)"
proof -
  note t = convergence_loops_bounded[OF closed_example_state,
             of "always (delivered 2)" "replicate 150 ''Y''"]
  from conjunct1[OF t] obtain r where
    "DVAlgorithmNoBreaks (always (delivered 2)) (example_graph, []) = Inr r"
    "1 \<le> cycles_run r"
    "cycles_run r \<le> max 1 (length example_graph * 50)"
    by (elim exE conjE)
  then have a: "\<exists>r. DVAlgorithmNoBreaks (always (delivered 2)) (example_graph, []) = Inr r \<and>
        1 \<le> cycles_run r \<and> cycles_run r \<le> max 1 (length example_graph * 50)"
    by (intro exI[of _ r] conjI)
  have y: "list_all (\<lambda>l. upper l = ''Y'') (replicate 150 ''Y'')"
    by (simp add: list_all_iff upper_def upper_char_def)
  have l: "length example_graph * 50 \<le> length (replicate 150 ''Y'')"
    by (simp add: length_example_graph)
  have b: "\<exists>r. DVAlgorithmBreaks (always (delivered 2)) (example_graph, [])
                (replicate 150 ''Y'') = Inr r"
    by (rule mp[OF conjunct2[OF conjunct2[OF t]]]) (intro conjI y l)
  show ?thesis by (intro conjI closed_example_state a y l b)
qed

subsection \<open>The hypotheses are invariants of the program\<close>

text \<open>
  The two predicates on graphs used above, \<open>rows_named\<close> and \<open>closed_graph\<close>, hold
  after \<open>initDVtable\<close> on a graph whose tables and mailboxes are still empty, and
  cycles and link changes keep them, whatever happens to the advertisements.
\<close>

lemma initDVtable_establishes:
  assumes "dict_keys_ok g"
    and "\<forall>n\<in>set (keys g). table_of g n = [] \<and> mailbox_of g n = []"
  shows "closed_graph (initDVtable g) \<and> rows_named (initDVtable g)"
proof -
  note i = initDVtable_tables[OF assms(1)]
  from i have k: "keys (initDVtable g) = keys g" by simp
  from assms(1) k have ok: "dict_keys_ok (initDVtable g)" by (simp add: dict_keys_ok_def)
  have t: "table_of (initDVtable g) n = map (\<lambda>d. (n, d, calculate_cost g n d)) (keys g)"
    if "n \<in> set (keys g)" for n
    using i assms(2) that by simp
  have m: "mailbox_of (initDVtable g) n = []" if "n \<in> set (keys g)" for n
    using i assms(2) that by simp
  have c: "closed_graph (initDVtable g)"
    unfolding closed_graph_iff k using ok by (simp add: t m image_image)
  have r: "rows_named (initDVtable g)"
    unfolding rows_named_def k by (simp add: list_all_iff t)
  from c r show ?thesis ..
qed

lemma rows_of_rebuilt: "\<forall>r\<in>set (table_of_dict n d). fst r = n"
  by (auto simp: table_of_dict_def)

lemma cycle_rows_named:
  assumes "dict_keys_ok g" and "cycle sched (g, net) = Inr ((g', net'), b)"
  shows "rows_named g'"
proof -
  from assms(1) have d: "distinct (keys g)" by (simp add: dict_keys_ok_def)
  from assms(2) have ua: "update_all sched (keys g) ((g, sendDVtoNeighbor g net), True) =
                            Inr ((g', net'), b)"
    by (simp add: cycle_def)
  note r = update_all_result[OF d ua]
  from r have k: "keys g' = keys g" by simp
  have "\<forall>n\<in>set (keys g). \<forall>r\<in>set (table_of g' n). fst r = n"
  proof
    fix n assume "n \<in> set (keys g)"
    with r obtain ch where
      u: "update_node n (table_of g n) (mailbox_of g' n) = Inr (table_of g' n, ch)"
      by blast
    from u obtain dd where "table_of g' n = table_of_dict n dd"
      by (rule update_node_result)
    then show "\<forall>r\<in>set (table_of g' n). fst r = n"
      by (simp add: rows_of_rebuilt)
  qed
  then show ?thesis
    unfolding rows_named_def k by (simp add: list_all_iff)
qed

lemma initDVtable_closed_state:
  assumes "dict_keys_ok g"
    and "\<forall>n\<in>set (keys g). table_of g n = [] \<and> mailbox_of g n = []"
  shows "closed_state (initDVtable g, [])"
  using initDVtable_establishes[OF assms] by (simp add: closed_state_def)

lemma set_link_names:
  "map (\<lambda>r. (fst r, fst (snd r))) (set_link s d c t) = map (\<lambda>r. (fst r, fst (snd r))) t"
  by (induction t) (auto split: prod.splits)

lemma set_link_sources: "fst ` set (set_link s d c t) = fst ` set t"
proof -
  have "map fst (set_link s d c t) = map fst t"
    using arg_cong[OF set_link_names[of s d c t], of "map fst"] by (simp add: comp_def)
  then show ?thesis by (metis list.set_map)
qed

lemma set_link_dests:
  "(\<lambda>r. fst (snd r)) ` set (set_link s d c t) = (\<lambda>r. fst (snd r)) ` set t"
proof -
  have "map (\<lambda>r. fst (snd r)) (set_link s d c t) = map (\<lambda>r. fst (snd r)) t"
    using arg_cong[OF set_link_names[of s d c t], of "map snd"] by (simp add: comp_def)
  then show ?thesis by (metis list.set_map)
qed

lemma DVAlgoLinkChange_keeps_invariants:
  assumes "DVAlgoLinkChange g sourceid destid link_cost = Inr (g', st)"
  shows "(rows_named g \<longrightarrow> rows_named g') \<and> (closed_graph g \<longrightarrow> closed_graph g')"
proof (cases "st = Returned_None")
  case False
  with assms have "g' = g"
    by (auto simp: DVAlgoLinkChange_def Let_def split: option.splits if_splits)
  then show ?thesis by simp
next
  case True
  with assms obtain c where lc: "link_cost = Some c"
    and ks: "sourceid \<in> set (keys g)" "destid \<in> set (keys g)"
    by (auto simp: DVAlgoLinkChange_def Let_def split: option.splits if_splits)
  from DVAlgoLinkChange_tables[OF ks, of c] assms lc have
    k: "keys g' = keys g" and m: "\<forall>n. mailbox_of g' n = mailbox_of g n" and
    t: "\<And>n. table_of g' n =
          (let t1 = (if n = sourceid then set_link sourceid destid c (table_of g n)
                     else table_of g n)
           in if n = destid then set_link destid sourceid c t1 else t1)"
    by auto
  have src: "fst ` set (table_of g' n) = fst ` set (table_of g n)" for n
    by (simp add: t Let_def set_link_sources)
  have dst: "(\<lambda>r. fst (snd r)) ` set (table_of g' n) = (\<lambda>r. fst (snd r)) ` set (table_of g n)" for n
    by (simp add: t Let_def set_link_dests)
  have 1: "rows_named g'" if "rows_named g"
  proof -
    have "\<forall>n\<in>set (keys g). \<forall>r\<in>set (table_of g' n). fst r = n"
    proof (intro ballI)
      fix n r assume n: "n \<in> set (keys g)" and r: "r \<in> set (table_of g' n)"
      then have "fst r \<in> fst ` set (table_of g n)" using src[of n] by blast
      with rows_namedD[OF that n] show "fst r = n" by auto
    qed
    then show ?thesis unfolding rows_named_def k by (simp add: list_all_iff)
  qed
  have 2: "closed_graph g'" if "closed_graph g"
    using that unfolding closed_graph_iff k by (simp add: dst m dict_keys_ok_def k)
  from 1 2 show ?thesis by blast
qed

end
